theory Spec2Isabelle
  imports Complex_Main "HOL-Library.Word" "HOL-Library.Monad_Syntax" "HOL-Library.Signed_Division"
    "HOL-Library.Log_Nat"
begin

unbundle bit_operations_syntax

section \<open>The hashmap of chashmap, as a program over an explicit memory\<close>

text \<open>
  The library is a set of C macros (\<^verbatim>\<open>hashmap.h\<close>, \<^verbatim>\<open>_hashmap.h\<close>) that expand at
  every use for the key and value types of the hashmap struct they are given. The
  embedding follows the macros one by one, on an LP64 platform: \<^verbatim>\<open>size_t\<close> is an
  unsigned 64-bit integer and \<^verbatim>\<open>long long\<close> a signed one.

  \<^item> A key is given by its 64-bit representation: the value of an integral key
    converted to \<^verbatim>\<open>long long\<close> (the parameter type of \<^verbatim>\<open>_hash_long_long\<close>), read as
    signed by \<open>sint\<close>; the bits of a \<^verbatim>\<open>double\<close>; the address held by a pointer. The
    macros compare keys with \<^verbatim>\<open>==\<close>: equality of the representation for integral
    and pointer keys, and for doubles the comparison of IEEE 754, read off the bits
    (\<open>key_equal\<close>). The key type is fixed by the declaration of the struct; the
    state records its kind in \<open>key_kind\<close>, which no macro changes.
  \<^item> The value type is a type parameter \<open>'v\<close>.
  \<^item> Pointers are addresses into three arenas, one per allocated type (table
    entries, list nodes, bucket tables); \<open>None\<close> is \<^verbatim>\<open>NULL\<close>. An arena cell is
    \<open>None\<close> once freed. Addresses are never reused.
  \<^item> Every macro is a function from the state to an optional result: \<open>None\<close>
    stands for what C leaves undefined (a read through \<^verbatim>\<open>NULL\<close> or a freed
    pointer, an index outside the table, a remainder by zero) and for a loop that
    does not end.
  \<^item> \<^verbatim>\<open>calloc\<close> returns \<^verbatim>\<open>NULL\<close> when the environment says so. The environment is
    a script \<open>faults\<close> of the outcomes of the coming calls (\<open>False\<close>: this call
    fails); after the script every call succeeds, unless the requested size
    itself does not fit \<^verbatim>\<open>size_t\<close>.
\<close>

type_synonym addr = nat
type_synonym size_t = "64 word"
type_synonym key = "64 word"

text \<open>What \<^verbatim>\<open>_IS_INTEGER\<close> and \<^verbatim>\<open>_IS_FLOATING_POINT\<close> say of the key type.\<close>

datatype key_type = Integer | Floating_point | Other

text \<open>\<^verbatim>\<open>struct _t_<entry>\<close>: the user's entry (key and value), the chain pointer and the
  back reference to the list node.\<close>

record 'v table_entry_t =
  entry_key :: key
  entry_value :: 'v
  next_entry :: "addr option"
  ll_node :: "addr option"

text \<open>\<^verbatim>\<open>struct _ll_node_<map>\<close>.\<close>

record ll_node_t =
  table_entry :: "addr option"
  previous :: "addr option"
  next_node :: "addr option"

text \<open>The kind of the key type of the struct's declaration, then the fields of the
  hashmap struct (\<^verbatim>\<open>_entry_ll._head\<close> and \<^verbatim>\<open>_entry_ll._tail\<close> flattened), then the memory
  it lives in.\<close>

record 'v state =
  key_kind :: key_type
  table_size :: size_t
  num_entries :: size_t
  entry_ll_head :: "addr option"
  entry_ll_tail :: "addr option"
  entry_table :: "addr option"
  hash_func :: "size_t \<Rightarrow> key \<Rightarrow> size_t option"
  entries :: "'v table_entry_t option list"
  nodes :: "ll_node_t option list"
  tables :: "addr option list option list"
  faults :: "bool list"

subsection \<open>Memory\<close>

definition entry_at :: "'v state \<Rightarrow> addr \<Rightarrow> 'v table_entry_t option" where
  "entry_at s a = (if a < length (entries s) then entries s ! a else None)"

definition node_at :: "'v state \<Rightarrow> addr \<Rightarrow> ll_node_t option" where
  "node_at s n = (if n < length (nodes s) then nodes s ! n else None)"

definition table_at :: "'v state \<Rightarrow> addr \<Rightarrow> addr option list option" where
  "table_at s t = (if t < length (tables s) then tables s ! t else None)"

definition write_entry :: "addr \<Rightarrow> 'v table_entry_t \<Rightarrow> 'v state \<Rightarrow> 'v state option" where
  "write_entry a e s =
     (case entry_at s a of None \<Rightarrow> None
      | Some _ \<Rightarrow> Some (s\<lparr>entries := (entries s)[a := Some e]\<rparr>))"

definition write_node :: "addr \<Rightarrow> ll_node_t \<Rightarrow> 'v state \<Rightarrow> 'v state option" where
  "write_node n d s =
     (case node_at s n of None \<Rightarrow> None
      | Some _ \<Rightarrow> Some (s\<lparr>nodes := (nodes s)[n := Some d]\<rparr>))"

definition write_cell :: "addr \<Rightarrow> nat \<Rightarrow> addr option \<Rightarrow> 'v state \<Rightarrow> 'v state option" where
  "write_cell t i p s =
     (case table_at s t of None \<Rightarrow> None
      | Some cells \<Rightarrow>
          if i < length cells then Some (s\<lparr>tables := (tables s)[t := Some (cells[i := p])]\<rparr>)
          else None)"

text \<open>\<^verbatim>\<open>free(p)\<close>: nothing for \<^verbatim>\<open>NULL\<close>, undefined for a pointer that is not live.\<close>

definition free_entry :: "addr option \<Rightarrow> 'v state \<Rightarrow> 'v state option" where
  "free_entry p s =
     (case p of None \<Rightarrow> Some s
      | Some a \<Rightarrow> (case entry_at s a of None \<Rightarrow> None
                  | Some _ \<Rightarrow> Some (s\<lparr>entries := (entries s)[a := None]\<rparr>)))"

definition free_table :: "addr option \<Rightarrow> 'v state \<Rightarrow> 'v state option" where
  "free_table p s =
     (case p of None \<Rightarrow> Some s
      | Some t \<Rightarrow> (case table_at s t of None \<Rightarrow> None
                  | Some _ \<Rightarrow> Some (s\<lparr>tables := (tables s)[t := None]\<rparr>)))"

text \<open>The outcome of the next \<^verbatim>\<open>calloc\<close> call, taken from the script.\<close>

definition next_fault :: "'v state \<Rightarrow> bool \<times> 'v state" where
  "next_fault s = (case faults s of [] \<Rightarrow> (True, s) | b # bs \<Rightarrow> (b, s\<lparr>faults := bs\<rparr>))"

text \<open>\<^verbatim>\<open>calloc(1, sizeof(_entry_type))\<close> together with the three assignments that
  follow it in \<^verbatim>\<open>_HASHMAP_TABLE_PUT\<close> (key, value, \<^verbatim>\<open>_next_entry = NULL\<close>); the zeroed
  \<^verbatim>\<open>_ll_node\<close> field is \<^verbatim>\<open>NULL\<close>.\<close>

definition calloc_entry :: "key \<Rightarrow> 'v \<Rightarrow> 'v state \<Rightarrow> addr option \<times> 'v state" where
  "calloc_entry k v s =
     (let (ok, s1) = next_fault s in
      if ok then
        (Some (length (entries s1)),
         s1\<lparr>entries := entries s1 @
           [Some \<lparr>entry_key = k, entry_value = v, next_entry = None, ll_node = None\<rparr>]\<rparr>)
      else (None, s1))"

text \<open>\<^verbatim>\<open>calloc(1, sizeof(_ll_node_type))\<close>: a node of three null pointers.\<close>

definition calloc_node :: "'v state \<Rightarrow> addr option \<times> 'v state" where
  "calloc_node s =
     (let (ok, s1) = next_fault s in
      if ok then
        (Some (length (nodes s1)),
         s1\<lparr>nodes := nodes s1 @
           [Some \<lparr>table_entry = None, previous = None, next_node = None\<rparr>]\<rparr>)
      else (None, s1))"

text \<open>\<^verbatim>\<open>calloc(n, sizeof(pointer))\<close>: \<open>n\<close> null cells. A pointer is 8 bytes, and \<^verbatim>\<open>calloc\<close>
  fails when \<open>n * 8\<close> does not fit \<^verbatim>\<open>size_t\<close>.\<close>

definition calloc_table :: "size_t \<Rightarrow> 'v state \<Rightarrow> addr option \<times> 'v state" where
  "calloc_table n s =
     (let (ok, s1) = next_fault s in
      if ok \<and> unat n * 8 < 2 ^ 64 then
        (Some (length (tables s1)),
         s1\<lparr>tables := tables s1 @ [Some (replicate (unat n) None)]\<rparr>)
      else (None, s1))"

subsection \<open>The hash functions\<close>

text \<open>\<^verbatim>\<open>val % table_size\<close> with \<^verbatim>\<open>val\<close> a \<^verbatim>\<open>long long\<close> and \<^verbatim>\<open>table_size\<close> a \<^verbatim>\<open>size_t\<close>:
  the usual arithmetic conversions turn \<^verbatim>\<open>val\<close> into an unsigned 64-bit integer
  (its representation, unchanged) and the remainder is the unsigned one.\<close>

definition hash_long_long :: "size_t \<Rightarrow> key \<Rightarrow> size_t option" where
  "hash_long_long table_size_arg v =
     (if table_size_arg = 0 then None else Some (v mod table_size_arg))"

text \<open>The union reads the bits of the double as a \<^verbatim>\<open>size_t\<close>; the key is these bits.\<close>

definition hash_double :: "size_t \<Rightarrow> key \<Rightarrow> size_t option" where
  "hash_double table_size_arg v =
     (if table_size_arg = 0 then None else Some (v mod table_size_arg))"

definition hash_ptr :: "size_t \<Rightarrow> key \<Rightarrow> size_t option" where
  "hash_ptr table_size_arg p =
     (if table_size_arg * 2 = 0 \<or> table_size_arg = 0 then None
      else Some (((p * 6) mod (table_size_arg * 2)) mod table_size_arg))"

subsection \<open>Key comparison\<close>

text \<open>A double is a NaN when its eleven exponent bits are all set and its fraction is not
  zero, and a zero when all its bits but the sign are zero. \<^verbatim>\<open>a == b\<close> on doubles: neither
  is a NaN, and they have the same bits or are both zeros.\<close>

definition is_nan :: "key \<Rightarrow> bool" where
  "is_nan a \<longleftrightarrow>
     a AND 0x7FF0000000000000 = 0x7FF0000000000000 \<and> a AND 0x000FFFFFFFFFFFFF \<noteq> 0"

definition is_zero :: "key \<Rightarrow> bool" where
  "is_zero a \<longleftrightarrow> a AND 0x7FFFFFFFFFFFFFFF = 0"

definition key_equal :: "key_type \<Rightarrow> key \<Rightarrow> key \<Rightarrow> bool" where
  "key_equal kt a b =
     (case kt of
        Floating_point \<Rightarrow> \<not> is_nan a \<and> \<not> is_nan b \<and> (a = b \<or> (is_zero a \<and> is_zero b))
      | _ \<Rightarrow> a = b)"

subsection \<open>The entry-order list\<close>

definition HASHMAP_LL_ADD_AFTER :: "addr \<Rightarrow> addr \<Rightarrow> 'v state \<Rightarrow> 'v state option" where
  "HASHMAP_LL_ADD_AFTER node new_node s =
     do {
       nn \<leftarrow> node_at s new_node;
       s1 \<leftarrow> write_node new_node (nn\<lparr>previous := Some node\<rparr>) s;
       nd \<leftarrow> node_at s1 node;
       s2 \<leftarrow> (case next_node nd of
               None \<Rightarrow> do {
                 nn1 \<leftarrow> node_at s1 new_node;
                 s' \<leftarrow> write_node new_node (nn1\<lparr>next_node := None\<rparr>) s1;
                 Some (s'\<lparr>entry_ll_tail := Some new_node\<rparr>)
               }
             | Some nx \<Rightarrow> do {
                 nn1 \<leftarrow> node_at s1 new_node;
                 s' \<leftarrow> write_node new_node (nn1\<lparr>next_node := Some nx\<rparr>) s1;
                 nxd \<leftarrow> node_at s' nx;
                 write_node nx (nxd\<lparr>previous := Some new_node\<rparr>) s'
               });
       nd2 \<leftarrow> node_at s2 node;
       write_node node (nd2\<lparr>next_node := Some new_node\<rparr>) s2
     }"

definition HASHMAP_LL_ADD_BEFORE :: "addr \<Rightarrow> addr \<Rightarrow> 'v state \<Rightarrow> 'v state option" where
  "HASHMAP_LL_ADD_BEFORE node new_node s =
     do {
       nn \<leftarrow> node_at s new_node;
       s1 \<leftarrow> write_node new_node (nn\<lparr>next_node := Some node\<rparr>) s;
       nd \<leftarrow> node_at s1 node;
       s2 \<leftarrow> (case previous nd of
               None \<Rightarrow> do {
                 nn1 \<leftarrow> node_at s1 new_node;
                 s' \<leftarrow> write_node new_node (nn1\<lparr>previous := None\<rparr>) s1;
                 Some (s'\<lparr>entry_ll_head := Some new_node\<rparr>)
               }
             | Some pv \<Rightarrow> do {
                 nn1 \<leftarrow> node_at s1 new_node;
                 s' \<leftarrow> write_node new_node (nn1\<lparr>previous := Some pv\<rparr>) s1;
                 pvd \<leftarrow> node_at s' pv;
                 write_node pv (pvd\<lparr>next_node := Some new_node\<rparr>) s'
               });
       nd2 \<leftarrow> node_at s2 node;
       write_node node (nd2\<lparr>previous := Some new_node\<rparr>) s2
     }"

definition HASHMAP_LL_ADD_HEAD :: "addr \<Rightarrow> 'v state \<Rightarrow> 'v state option" where
  "HASHMAP_LL_ADD_HEAD n s =
     (case entry_ll_head s of
        None \<Rightarrow> do {
          let s1 = s\<lparr>entry_ll_head := Some n, entry_ll_tail := Some n\<rparr>;
          nd \<leftarrow> node_at s1 n;
          write_node n (nd\<lparr>previous := None, next_node := None\<rparr>) s1
        }
      | Some head_ptr \<Rightarrow> HASHMAP_LL_ADD_BEFORE head_ptr n s)"

definition HASHMAP_LL_ADD_TAIL :: "addr \<Rightarrow> 'v state \<Rightarrow> 'v state option" where
  "HASHMAP_LL_ADD_TAIL n s =
     (case entry_ll_tail s of
        None \<Rightarrow> HASHMAP_LL_ADD_HEAD n s
      | Some tail_ptr \<Rightarrow> HASHMAP_LL_ADD_AFTER tail_ptr n s)"

text \<open>\<^verbatim>\<open>_HASHMAP_LL_PUT\<close>: 0 when the node was allocated and appended, -1 when the
  allocation failed.\<close>

definition HASHMAP_LL_PUT :: "addr \<Rightarrow> 'v state \<Rightarrow> (int \<times> 'v state) option" where
  "HASHMAP_LL_PUT entry_ptr s =
     (let (new_entry_ll_node, s1) = calloc_node s in
      case new_entry_ll_node of
        None \<Rightarrow> Some (- 1, s1)
      | Some n \<Rightarrow> do {
          nd \<leftarrow> node_at s1 n;
          s2 \<leftarrow> write_node n (nd\<lparr>table_entry := Some entry_ptr\<rparr>) s1;
          e \<leftarrow> entry_at s2 entry_ptr;
          s3 \<leftarrow> write_entry entry_ptr (e\<lparr>ll_node := Some n\<rparr>) s2;
          s4 \<leftarrow> HASHMAP_LL_ADD_TAIL n s3;
          Some (0, s4)
        })"

subsection \<open>The bucket table\<close>

text \<open>A pointer to a pointer to an entry, as \<^verbatim>\<open>_HASHMAP_FIND_ENTRY_RECORD\<close> returns it:
  the address of a cell of a table, or of the \<^verbatim>\<open>_next_entry\<close> field of an entry.\<close>

datatype entry_ref = Cell addr nat | Next_entry_of addr

fun deref :: "'v state \<Rightarrow> entry_ref \<Rightarrow> addr option option" where
  "deref s (Cell t i) =
     (case table_at s t of None \<Rightarrow> None
      | Some cells \<Rightarrow> if i < length cells then Some (cells ! i) else None)"
| "deref s (Next_entry_of a) = map_option next_entry (entry_at s a)"

partial_function (option) find_entry_loop :: "'v state \<Rightarrow> key \<Rightarrow> entry_ref \<Rightarrow> entry_ref option"
where
  "find_entry_loop s k entry_cursor =
     (case deref s entry_cursor of
        None \<Rightarrow> None
      | Some None \<Rightarrow> Some entry_cursor
      | Some (Some a) \<Rightarrow>
          (case entry_at s a of
             None \<Rightarrow> None
           | Some e \<Rightarrow>
               if key_equal (key_kind s) (entry_key e) k then Some entry_cursor
               else find_entry_loop s k (Next_entry_of a)))"

definition HASHMAP_FIND_ENTRY_RECORD :: "'v state \<Rightarrow> key \<Rightarrow> entry_ref option" where
  "HASHMAP_FIND_ENTRY_RECORD s k =
     do {
       hash_val \<leftarrow> hash_func s (table_size s) k;
       t \<leftarrow> entry_table s;
       find_entry_loop s k (Cell t (unat hash_val))
     }"

text \<open>The second loop of \<^verbatim>\<open>_HASHMAP_TABLE_PUT\<close>: from a cell that is not empty to the
  reference whose entry has no successor.\<close>

partial_function (option) chain_end_loop :: "'v state \<Rightarrow> entry_ref \<Rightarrow> entry_ref option"
where
  "chain_end_loop s table_entry_cursor =
     (case deref s table_entry_cursor of
        None \<Rightarrow> None
      | Some None \<Rightarrow> None
      | Some (Some a) \<Rightarrow>
          (case entry_at s a of
             None \<Rightarrow> None
           | Some e \<Rightarrow>
               (case next_entry e of
                  None \<Rightarrow> Some table_entry_cursor
                | Some _ \<Rightarrow> chain_end_loop s (Next_entry_of a))))"

text \<open>\<^verbatim>\<open>_HASHMAP_TABLE_PUT\<close>: the new entry when one was allocated, \<^verbatim>\<open>NULL\<close> when the key
  was there (its value is replaced) and also when the allocation failed.\<close>

definition HASHMAP_TABLE_PUT :: "key \<Rightarrow> 'v \<Rightarrow> 'v state \<Rightarrow> (addr option \<times> 'v state) option" where
  "HASHMAP_TABLE_PUT k v s =
     do {
       entry_record \<leftarrow> HASHMAP_FIND_ENTRY_RECORD s k;
       found \<leftarrow> deref s entry_record;
       case found of
         Some a \<Rightarrow> do {
           e \<leftarrow> entry_at s a;
           s1 \<leftarrow> write_entry a (e\<lparr>entry_value := v\<rparr>) s;
           Some (None, s1)
         }
       | None \<Rightarrow>
           (let (new_entry, s1) = calloc_entry k v s in
            case new_entry of
              None \<Rightarrow> Some (None, s1)
            | Some n \<Rightarrow> do {
                hash_val \<leftarrow> hash_func s1 (table_size s1) k;
                t \<leftarrow> entry_table s1;
                cell \<leftarrow> deref s1 (Cell t (unat hash_val));
                s2 \<leftarrow> (case cell of
                        None \<Rightarrow> write_cell t (unat hash_val) (Some n) s1
                      | Some _ \<Rightarrow> do {
                          cursor \<leftarrow> chain_end_loop s1 (Cell t (unat hash_val));
                          last_ptr \<leftarrow> deref s1 cursor;
                          l \<leftarrow> last_ptr;
                          e \<leftarrow> entry_at s1 l;
                          write_entry l (e\<lparr>next_entry := Some n\<rparr>) s1
                        });
                Some (Some n, s2)
              })
     }"

subsection \<open>Growth\<close>

text \<open>The loop of \<^verbatim>\<open>_HASHMAP_REHASH_TABLE\<close>, from the node the cursor is at.\<close>

partial_function (option) rehash_loop :: "'v state \<Rightarrow> addr option \<Rightarrow> (int \<times> 'v state) option"
where
  "rehash_loop s ll_node_cursor =
     (case ll_node_cursor of
        None \<Rightarrow> Some (0, s)
      | Some n \<Rightarrow> do {
          nd \<leftarrow> node_at s n;
          te \<leftarrow> table_entry nd;
          e \<leftarrow> entry_at s te;
          (rehashed_table_entry, s1) \<leftarrow> HASHMAP_TABLE_PUT (entry_key e) (entry_value e) s;
          case rehashed_table_entry of
            None \<Rightarrow> Some (- 1, s1)
          | Some rehashed \<Rightarrow> do {
              nd1 \<leftarrow> node_at s1 n;
              s2 \<leftarrow> write_node n (nd1\<lparr>table_entry := Some rehashed\<rparr>) s1;
              s3 \<leftarrow> free_entry (Some te) s2;
              nd3 \<leftarrow> node_at s3 n;
              rehash_loop s3 (next_node nd3)
            }
        })"

definition HASHMAP_REHASH_TABLE :: "'v state \<Rightarrow> (int \<times> 'v state) option" where
  "HASHMAP_REHASH_TABLE s = rehash_loop s (entry_ll_head s)"

text \<open>\<^verbatim>\<open>_HASHMAP_INCREASE_SIZE\<close>. The old table is freed after the rehash, whatever the
  rehash returned.\<close>

definition HASHMAP_INCREASE_SIZE :: "'v state \<Rightarrow> (int \<times> 'v state) option" where
  "HASHMAP_INCREASE_SIZE s =
     (let old_table_size = table_size s;
          old_table = entry_table s;
          new_table_size = old_table_size * 2;
          (new_table_ptr, s1) = calloc_table new_table_size s
      in case new_table_ptr of
           None \<Rightarrow> Some (- 1, s1)
         | Some t \<Rightarrow> do {
             let s2 = s1\<lparr>table_size := new_table_size, entry_table := Some t\<rparr>;
             (return_val, s3) \<leftarrow> HASHMAP_REHASH_TABLE s2;
             s4 \<leftarrow> free_table old_table s3;
             Some (return_val, s4)
           })"

subsection \<open>The public macros\<close>

text \<open>\<^verbatim>\<open>HASHMAP_INIT\<close>. The hash function is chosen by the key type of the struct.\<close>

definition HASHMAP_INIT :: "'v state \<Rightarrow> int \<times> 'v state" where
  "HASHMAP_INIT s =
     (let s1 = s\<lparr>table_size := 15, num_entries := 0,
                 entry_ll_head := None, entry_ll_tail := None\<rparr>;
          s2 = s1\<lparr>hash_func :=
                 (case key_kind s1 of Integer \<Rightarrow> hash_long_long
                  | Floating_point \<Rightarrow> hash_double
                  | Other \<Rightarrow> hash_ptr)\<rparr>;
          (p, s3) = calloc_table (table_size s2) s2;
          s4 = s3\<lparr>entry_table := p\<rparr>
      in (if p = None then - 1 else 0, s4))"

text \<open>\<^verbatim>\<open>(double) n\<close> for a \<^verbatim>\<open>size_t\<close>: the value of the nearest double, ties to even
  (IEEE 754 binary64, the default rounding). A double keeps 53 significant bits; a number
  of \<open>floorlog 2 n\<close> bits loses its lowest \<open>e = floorlog 2 n - 53\<close> bits, and is rounded up
  when the bits lost are more than half a unit of the last bit kept, or exactly half a unit
  with the last bit kept odd. Numbers below \<open>2 ^ 53\<close> are kept as they are.\<close>

definition double_of_size_t :: "size_t \<Rightarrow> nat" where
  "double_of_size_t w =
     (let n = unat w;
          e = floorlog 2 n - 53;
          q = n div 2 ^ e;
          r = n mod 2 ^ e
      in if 2 * r < 2 ^ e \<or> (2 * r = 2 ^ e \<and> even q) then q * 2 ^ e else (q + 1) * 2 ^ e)"

text \<open>\<^verbatim>\<open>(double) _num_entries / _table_size >= _LOAD_FACTOR_LIM\<close>: both operands are
  converted to double, and their quotient is rounded to the nearest double, ties to even,
  before it is compared with 0.75. Now 0.75 is a double, the double below it is
  \<open>0.75 - 1 / 2 ^ 53\<close>, and the point half way between them rounds to 0.75, whose last
  mantissa bit is 0. So the rounded quotient is at least 0.75 exactly when the quotient of
  the two doubles is at least \<open>0.75 - 1 / 2 ^ 54\<close>. A zero table size gives an infinity
  or a NaN in C: the first is above the limit, the second is not.\<close>

definition load_factor_reached :: "'v state \<Rightarrow> bool" where
  "load_factor_reached s =
     (if table_size s = 0 then num_entries s \<noteq> 0
      else real (double_of_size_t (num_entries s)) / real (double_of_size_t (table_size s))
             \<ge> 3 / 4 - 1 / 2 ^ 54)"

text \<open>The block both branches of \<^verbatim>\<open>HASHMAP_PUT\<close> repeat: \<^verbatim>\<open>_HASHMAP_TABLE_PUT\<close>, then
  \<^verbatim>\<open>_HASHMAP_LL_PUT\<close> when it returned an entry; the return value is 0 unless
  \<^verbatim>\<open>_HASHMAP_LL_PUT\<close> failed.\<close>

definition put_entry :: "key \<Rightarrow> 'v \<Rightarrow> 'v state \<Rightarrow> (int \<times> 'v state) option" where
  "put_entry k v s =
     do {
       (table_put_res, s1) \<leftarrow> HASHMAP_TABLE_PUT k v s;
       (ll_put_res, s2) \<leftarrow> (case table_put_res of
                              None \<Rightarrow> Some (0, s1)
                            | Some e \<Rightarrow> HASHMAP_LL_PUT e s1);
       Some (if ll_put_res = 0 then 0 else - 1, s2)
     }"

definition HASHMAP_PUT :: "key \<Rightarrow> 'v \<Rightarrow> 'v state \<Rightarrow> (int \<times> 'v state) option" where
  "HASHMAP_PUT k v s =
     do {
       (return_val, s1) \<leftarrow>
         (if load_factor_reached s then do {
            (increase_size_res, s') \<leftarrow> HASHMAP_INCREASE_SIZE s;
            if increase_size_res = 0 then put_entry k v s' else Some (- 1, s')
          }
          else put_entry k v s);
       Some (return_val, s1\<lparr>num_entries := num_entries s1 + 1\<rparr>)
     }"

text \<open>The search loop of \<^verbatim>\<open>HASHMAP_GET\<close>: the value found, if any.\<close>

partial_function (option) get_loop :: "'v state \<Rightarrow> key \<Rightarrow> addr option \<Rightarrow> 'v option option"
where
  "get_loop s k table_cell =
     (case table_cell of
        None \<Rightarrow> Some None
      | Some a \<Rightarrow>
          (case entry_at s a of
             None \<Rightarrow> None
           | Some e \<Rightarrow>
               if key_equal (key_kind s) (entry_key e) k then Some (Some (entry_value e))
               else get_loop s k (next_entry e)))"

text \<open>\<^verbatim>\<open>HASHMAP_GET(result, m, k)\<close>: the first argument is what \<^verbatim>\<open>*result\<close> holds before
  the call; the result is the return value and what \<^verbatim>\<open>*result\<close> holds after it.\<close>

definition HASHMAP_GET :: "'v \<Rightarrow> 'v state \<Rightarrow> key \<Rightarrow> (bool \<times> 'v) option" where
  "HASHMAP_GET result s k =
     do {
       hash_val \<leftarrow> hash_func s (table_size s) k;
       t \<leftarrow> entry_table s;
       table_cell \<leftarrow> deref s (Cell t (unat hash_val));
       val_search_res \<leftarrow> get_loop s k table_cell;
       Some (case val_search_res of
               None \<Rightarrow> (False, result)
             | Some v \<Rightarrow> (True, v))
     }"

section \<open>Abstraction: chains, the entry-order list and the invariants\<close>

text \<open>
  The definitions of this section are not part of the program. They say what the memory
  holds: which entries a bucket chain runs through, which nodes the entry-order list runs
  through, and what stays true of both between two calls.
\<close>

fun path :: "(addr \<Rightarrow> addr option option) \<Rightarrow> addr option \<Rightarrow> addr list \<Rightarrow> bool" where
  "path nx p [] = (p = None)"
| "path nx p (a # as) = (p = Some a \<and> (\<exists>q. nx a = Some q \<and> path nx q as))"

definition nx_entry :: "'v state \<Rightarrow> addr \<Rightarrow> addr option option" where
  "nx_entry s a = map_option next_entry (entry_at s a)"

definition nx_node :: "'v state \<Rightarrow> addr \<Rightarrow> addr option option" where
  "nx_node s n = map_option next_node (node_at s n)"

definition key_at :: "'v state \<Rightarrow> addr \<Rightarrow> key option" where
  "key_at s a = map_option entry_key (entry_at s a)"

definition kv_at :: "'v state \<Rightarrow> addr \<Rightarrow> (key \<times> 'v) option" where
  "kv_at s a = map_option (\<lambda>e. (entry_key e, entry_value e)) (entry_at s a)"

definition val_at :: "'v state \<Rightarrow> addr \<Rightarrow> 'v option" where
  "val_at s a = map_option entry_value (entry_at s a)"

text \<open>The entry at \<open>a\<close> is live and its key compares equal to \<open>k\<close>.\<close>

definition key_matches :: "'v state \<Rightarrow> key \<Rightarrow> addr \<Rightarrow> bool" where
  "key_matches s k a =
     (case key_at s a of None \<Rightarrow> False | Some k' \<Rightarrow> key_equal (key_kind s) k' k)"

definition find_key :: "'v state \<Rightarrow> key \<Rightarrow> addr list \<Rightarrow> addr option" where
  "find_key s k as = List.find (key_matches s k) as"

definition hash_ok :: "(size_t \<Rightarrow> key \<Rightarrow> size_t option) \<Rightarrow> bool" where
  "hash_ok f \<longleftrightarrow> (\<forall>ts k. ts \<noteq> 0 \<and> unat ts * 8 < 2 ^ 64 \<longrightarrow> (\<exists>h. f ts k = Some h \<and> h < ts))"

definition bucket_of :: "'v state \<Rightarrow> key \<Rightarrow> nat option" where
  "bucket_of s k = map_option unat (hash_func s (table_size s) k)"

definition table_ok :: "'v state \<Rightarrow> addr list list \<Rightarrow> bool" where
  "table_ok s bs \<longleftrightarrow>
     (\<exists>t cells. entry_table s = Some t \<and> table_at s t = Some cells \<and>
        length cells = unat (table_size s) \<and> length bs = unat (table_size s) \<and>
        table_size s \<noteq> 0 \<and> unat (table_size s) * 8 < 2 ^ 64 \<and> hash_ok (hash_func s) \<and>
        (\<forall>i<length bs. path (nx_entry s) (cells ! i) (bs ! i)) \<and>
        (\<forall>i<length bs. \<forall>a\<in>set (bs ! i). \<exists>k. key_at s a = Some k \<and> bucket_of s k = Some i))"

definition alloc_ok :: "'v state \<Rightarrow> bool" where
  "alloc_ok s \<longleftrightarrow> (case faults s of [] \<Rightarrow> True | b # _ \<Rightarrow> b)"

definition new_entry :: "key \<Rightarrow> 'v \<Rightarrow> 'v table_entry_t" where
  "new_entry k v = \<lparr>entry_key = k, entry_value = v, next_entry = None, ll_node = None\<rparr>"

definition table_insert :: "'v state \<Rightarrow> addr list list \<Rightarrow> nat \<Rightarrow> key \<Rightarrow> 'v \<Rightarrow> 'v state" where
  "table_insert s bs h k v =
     (let n = length (entries s);
          s1 = s\<lparr>faults := tl (faults s), entries := entries s @ [Some (new_entry k v)]\<rparr>
      in if bs ! h = [] then
           s1\<lparr>tables := (tables s)[the (entry_table s) :=
                 Some ((the (table_at s (the (entry_table s))))[h := Some n])]\<rparr>
         else
           s1\<lparr>entries := (entries s1)[last (bs ! h) :=
                 map_option (\<lambda>e. e\<lparr>next_entry := Some n\<rparr>) (entry_at s (last (bs ! h)))]\<rparr>)"

definition node_entry :: "'v state \<Rightarrow> addr \<Rightarrow> addr option" where
  "node_entry s n = (case node_at s n of None \<Rightarrow> None | Some d \<Rightarrow> table_entry d)"

definition ll_ok :: "'v state \<Rightarrow> addr list \<Rightarrow> bool" where
  "ll_ok s ns \<longleftrightarrow>
     path (nx_node s) (entry_ll_head s) ns \<and>
     entry_ll_tail s = (if ns = [] then None else Some (last ns))"

definition ll_append :: "'v state \<Rightarrow> addr list \<Rightarrow> addr \<Rightarrow> 'v state" where
  "ll_append s ns e =
     (let n = length (nodes s);
          s1 = s\<lparr>faults := tl (faults s),
                 entries := (entries s)[e := map_option (\<lambda>x. x\<lparr>ll_node := Some n\<rparr>) (entry_at s e)]\<rparr>
      in if ns = [] then
           s1\<lparr>entry_ll_head := Some n, entry_ll_tail := Some n,
              nodes := nodes s @ [Some \<lparr>table_entry = Some e, previous = None, next_node = None\<rparr>]\<rparr>
         else
           s1\<lparr>entry_ll_tail := Some n,
              nodes := (nodes s @
                  [Some \<lparr>table_entry = Some e, previous = Some (last ns), next_node = None\<rparr>])
                [last ns := map_option (\<lambda>d. d\<lparr>next_node := Some n\<rparr>) (node_at s (last ns))]\<rparr>)"

definition node_kv :: "'v state \<Rightarrow> addr \<Rightarrow> (key \<times> 'v) option" where
  "node_kv s n = Option.bind (node_entry s n) (kv_at s)"

definition safe_inv :: "'v state \<Rightarrow> addr list list \<Rightarrow> addr list \<Rightarrow> nat \<Rightarrow> bool" where
  "safe_inv s bs ns j \<longleftrightarrow>
     table_ok s bs \<and> ll_ok s ns \<and>
     (\<forall>n\<in>set ns. \<exists>a. node_entry s n = Some a \<and> entry_at s a \<noteq> None) \<and>
     distinct (map (node_entry s) ns) \<and>
     (\<forall>n\<in>set (drop j ns). \<forall>a. node_entry s n = Some a \<longrightarrow> a \<notin> set (concat bs))"



text \<open>The state after one turn of the rehash loop that moved the entry \<open>te\<close> of node \<open>n\<close>.\<close>

definition rehash_step ::
  "'v state \<Rightarrow> addr list list \<Rightarrow> addr \<Rightarrow> addr \<Rightarrow> nat \<Rightarrow> key \<Rightarrow> 'v \<Rightarrow> 'v state" where
  "rehash_step s bs n te h k v =
     (let s1 = table_insert s bs h k v in
      s1\<lparr>nodes := (nodes s)[n := map_option (\<lambda>d. d\<lparr>table_entry := Some (length (entries s))\<rparr>)
                                   (node_at s n)],
         entries := (entries s1)[te := None]\<rparr>)"

definition rehash_frame :: "'v state \<Rightarrow> 'v state \<Rightarrow> bool" where
  "rehash_frame s s' \<longleftrightarrow>
     key_kind s' = key_kind s \<and> table_size s' = table_size s \<and> num_entries s' = num_entries s \<and>
     entry_table s' = entry_table s \<and> hash_func s' = hash_func s \<and>
     length (tables s') = length (tables s) \<and>
     (\<forall>t. entry_table s \<noteq> Some t \<longrightarrow> table_at s' t = table_at s t)"

definition safe :: "'v state \<Rightarrow> bool" where
  "safe s \<longleftrightarrow> (\<exists>bs ns. safe_inv s bs ns (length ns))"

text \<open>The block of \<^verbatim>\<open>HASHMAP_PUT\<close> keeps the structure in every case.\<close>

definition put_frame :: "'v state \<Rightarrow> 'v state \<Rightarrow> bool" where
  "put_frame s s' \<longleftrightarrow>
     key_kind s' = key_kind s \<and> table_size s' = table_size s \<and> num_entries s' = num_entries s \<and>
     entry_table s' = entry_table s \<and> hash_func s' = hash_func s \<and>
     length (tables s') = length (tables s) \<and>
     (\<forall>t. (table_at s' t = None) = (table_at s t = None))"

datatype 'v op = Put key 'v | Get 'v key

fun run :: "'v op list \<Rightarrow> 'v state \<Rightarrow> 'v state option" where
  "run [] s = Some s"
| "run (Put k v # ops) s =
     (case HASHMAP_PUT k v s of None \<Rightarrow> None | Some (_, s') \<Rightarrow> run ops s')"
| "run (Get result k # ops) s =
     (case HASHMAP_GET result s k of None \<Rightarrow> None | Some _ \<Rightarrow> run ops s)"

text \<open>The put calls among the operations.\<close>

fun is_put :: "'v op \<Rightarrow> bool" where
  "is_put (Put _ _) = True"
| "is_put (Get _ _) = False"

definition grows :: "'v state \<Rightarrow> bool" where
  "grows s \<longleftrightarrow> load_factor_reached s \<and> alloc_ok s \<and> unat (table_size s * 2) * 8 < 2 ^ 64"

text \<open>A memory with nothing allocated, holding a hashmap struct for keys of kind \<open>kt\<close>
  that has not been initialised, and the outcomes \<open>fs\<close> of the allocations to come.\<close>

definition memory :: "key_type \<Rightarrow> bool list \<Rightarrow> 'v state" where
  "memory kt fs =
     \<lparr>key_kind = kt, table_size = 0, num_entries = 0, entry_ll_head = None, entry_ll_tail = None,
      entry_table = None, hash_func = (\<lambda>_ _. None), entries = [], nodes = [], tables = [],
      faults = fs\<rparr>"

text \<open>A walk along one bucket chain: the key and value of every entry, in chain order.\<close>

partial_function (option) chain_walk :: "'v state \<Rightarrow> addr option \<Rightarrow> (key \<times> 'v) list option"
where
  "chain_walk s table_cell =
     (case table_cell of
        None \<Rightarrow> Some []
      | Some a \<Rightarrow> do {
          e \<leftarrow> entry_at s a;
          rest \<leftarrow> chain_walk s (next_entry e);
          Some ((entry_key e, entry_value e) # rest)
        })"

fun walk_cells :: "'v state \<Rightarrow> addr option list \<Rightarrow> (key \<times> 'v) list option" where
  "walk_cells s [] = Some []"
| "walk_cells s (c # cs) =
     do { xs \<leftarrow> chain_walk s c; ys \<leftarrow> walk_cells s cs; Some (xs @ ys) }"

text \<open>A walk along every bucket chain of the table, bucket 0 first.\<close>

definition table_walk :: "'v state \<Rightarrow> (key \<times> 'v) list option" where
  "table_walk s =
     do {
       t \<leftarrow> entry_table s;
       cells \<leftarrow> table_at s t;
       if unat (table_size s) \<le> length cells then walk_cells s (take (unat (table_size s)) cells)
       else None
     }"

text \<open>The traversal of the entry-order list from its head, as the loops of
  \<^verbatim>\<open>_HASHMAP_REHASH_TABLE\<close> and \<^verbatim>\<open>_HASHMAP_TABLE_FREE\<close> make it: the key and value of the
  entry of every node, in list order.\<close>

partial_function (option) ll_walk :: "'v state \<Rightarrow> addr option \<Rightarrow> (key \<times> 'v) list option"
where
  "ll_walk s ll_node_cursor =
     (case ll_node_cursor of
        None \<Rightarrow> Some []
      | Some n \<Rightarrow> do {
          nd \<leftarrow> node_at s n;
          te \<leftarrow> table_entry nd;
          e \<leftarrow> entry_at s te;
          rest \<leftarrow> ll_walk s (next_node nd);
          Some ((entry_key e, entry_value e) # rest)
        })"

definition entry_ll_traverse :: "'v state \<Rightarrow> (key \<times> 'v) list option" where
  "entry_ll_traverse s = ll_walk s (entry_ll_head s)"






section \<open>Proofs\<close>

lemma double_of_size_t_small: "unat w < 2 ^ 53 \<Longrightarrow> double_of_size_t w = unat w"
proof -
  assume "unat w < 2 ^ 53"
  then have "floorlog 2 (unat w) \<le> 53" by (simp add: floorlog_le_iff)
  then have "floorlog 2 (unat w) - 53 = 0" by simp
  then show ?thesis by (simp add: double_of_size_t_def Let_def)
qed




text \<open>Below \<open>2 ^ 52\<close> both conversions and the comparison are exact.\<close>

lemma load_factor_exact:
  assumes "table_size s \<noteq> 0" "unat (num_entries s) < 2 ^ 52" "unat (table_size s) < 2 ^ 52"
  shows "load_factor_reached s \<longleftrightarrow> 3 * unat (table_size s) \<le> 4 * unat (num_entries s)"
proof -
  define n where "n = unat (num_entries s)"
  define t where "t = unat (table_size s)"
  have dn: "double_of_size_t (num_entries s) = n"
    using assms(2) by (simp add: double_of_size_t_small n_def)
  have dt: "double_of_size_t (table_size s) = t"
    using assms(3) by (simp add: double_of_size_t_small t_def)
  have "t \<noteq> 0" using assms(1) by (simp add: t_def unat_eq_0)
  then have tp: "0 < real t" by simp
  have t52: "real t < 2 ^ 52" using assms(3) unfolding t_def [symmetric]
    by (metis of_nat_less_iff of_nat_numeral of_nat_power)
  have "load_factor_reached s \<longleftrightarrow> 3 / 4 - 1 / 2 ^ 54 \<le> real n / real t"
    using assms(1) by (simp add: load_factor_reached_def dn dt)
  also have "\<dots> \<longleftrightarrow> (3 * 2 ^ 52 - 1) * real t \<le> 2 ^ 54 * real n"
    using tp by (simp add: field_simps)
  also have "\<dots> \<longleftrightarrow> 3 * t \<le> 4 * n"
  proof
    assume "3 * t \<le> 4 * n"
    then have "real (3 * t) \<le> real (4 * n)" by (simp only: of_nat_le_iff)
    then have "3 * real t \<le> 4 * real n" by simp
    then have "2 ^ 52 * (3 * real t) \<le> 2 ^ 52 * (4 * real n)" by simp
    with tp show "(3 * 2 ^ 52 - 1) * real t \<le> 2 ^ 54 * real n" by (simp add: algebra_simps)
  next
    assume h: "(3 * 2 ^ 52 - 1) * real t \<le> 2 ^ 54 * real n"
    show "3 * t \<le> 4 * n"
    proof (rule ccontr)
      assume "\<not> 3 * t \<le> 4 * n"
      then have "4 * n + 1 \<le> 3 * t" by simp
      then have "real (4 * n + 1) \<le> real (3 * t)" by (simp only: of_nat_le_iff)
      then have "4 * real n + 1 \<le> 3 * real t" by simp
      then have "2 ^ 52 * (4 * real n + 1) \<le> 2 ^ 52 * (3 * real t)" by simp
      with h t52 show False by (simp add: algebra_simps)
    qed
  qed
  finally show ?thesis by (simp add: n_def t_def)
qed

lemma path_None [simp]: "path nx None as = (as = [])"
  by (cases as) auto

lemma path_unique: "path nx p as \<Longrightarrow> path nx p bs \<Longrightarrow> as = bs"
proof (induction as arbitrary: p bs)
  case Nil
  then show ?case by simp
next
  case (Cons a as)
  then obtain b bs' where bs: "bs = b # bs'" by (cases bs) auto
  with Cons show ?case by auto
qed

lemma path_suffix: "path nx p (xs @ a # ys) \<Longrightarrow> path nx (Some a) (a # ys)"
  by (induction xs arbitrary: p) auto

lemma path_distinct: "path nx p as \<Longrightarrow> distinct as"
proof (induction as arbitrary: p)
  case Nil
  then show ?case by simp
next
  case (Cons a as)
  have "a \<notin> set as"
  proof
    assume "a \<in> set as"
    then obtain xs ys where as: "as = xs @ a # ys" by (auto simp: in_set_conv_decomp)
    from Cons.prems have "path nx (Some a) (a # as)" by auto
    moreover from Cons.prems as have "path nx (Some a) (a # ys)"
      using path_suffix [of nx p "a # xs" a ys] by simp
    ultimately have "a # as = a # ys" by (rule path_unique)
    with as show False by simp
  qed
  with Cons show ?case by auto
qed

lemma path_live: "path nx p as \<Longrightarrow> a \<in> set as \<Longrightarrow> \<exists>q. nx a = Some q"
  by (induction as arbitrary: p) auto

lemma path_cong: "(\<And>a. a \<in> set as \<Longrightarrow> nx' a = nx a) \<Longrightarrow> path nx' p as = path nx p as"
  by (induction as arbitrary: p) auto

lemma path_last: "path nx p as \<Longrightarrow> as \<noteq> [] \<Longrightarrow> nx (last as) = Some None"
  by (induction as arbitrary: p) (auto split: if_splits)

lemma path_hd: "path nx p as \<Longrightarrow> p = (if as = [] then None else Some (hd as))"
  by (cases as) auto

lemma path_snoc_aux:
  "path nx p as \<Longrightarrow> as \<noteq> [] \<Longrightarrow> n \<notin> set as \<Longrightarrow> distinct as \<Longrightarrow>
   nx' n = Some None \<Longrightarrow> nx' (last as) = Some (Some n) \<Longrightarrow>
   (\<And>a. a \<in> set as \<Longrightarrow> a \<noteq> last as \<Longrightarrow> nx' a = nx a) \<Longrightarrow>
   path nx' p (as @ [n])"
proof (induction as arbitrary: p)
  case Nil
  then show ?case by simp
next
  case (Cons a as)
  show ?case
  proof (cases "as = []")
    case True
    with Cons.prems show ?thesis by auto
  next
    case False
    from Cons.prems obtain q where q: "p = Some a" "nx a = Some q" "path nx q as" by auto
    from Cons.prems False have an: "a \<noteq> last as" by auto
    have "path nx' q (as @ [n])"
    proof (rule Cons.IH [OF q(3) False])
      show "n \<notin> set as" using Cons.prems by simp
      show "distinct as" using Cons.prems by simp
      show "nx' n = Some None" by fact
      show "nx' (last as) = Some (Some n)" using Cons.prems False by simp
      fix b assume "b \<in> set as" "b \<noteq> last as"
      then show "nx' b = nx b" using Cons.prems(7) [of b] False by simp
    qed
    moreover have "nx' a = nx a" using Cons.prems(7) [of a] False an by simp
    ultimately show ?thesis using q by simp
  qed
qed

lemma path_snoc:
  assumes "path nx p as" "as \<noteq> []" "n \<notin> set as" "nx' n = Some None"
    "nx' (last as) = Some (Some n)"
    "\<And>a. a \<in> set as \<Longrightarrow> a \<noteq> last as \<Longrightarrow> nx' a = nx a"
  shows "path nx' p (as @ [n])"
  using assms path_distinct [OF assms(1)] by (intro path_snoc_aux) auto

lemma find_key_Nil [simp]: "find_key s k [] = None"
  by (simp add: find_key_def)

lemma find_key_Cons:
  "find_key s k (a # as) = (if key_matches s k a then Some a else find_key s k as)"
  by (simp add: find_key_def)

lemma key_matches_entry:
  "entry_at s a = Some e \<Longrightarrow> key_matches s k a = key_equal (key_kind s) (entry_key e) k"
  by (simp add: key_matches_def key_at_def)

lemma nx_entry_Some: "nx_entry s a = Some q \<longleftrightarrow> (\<exists>e. entry_at s a = Some e \<and> next_entry e = q)"
  by (auto simp: nx_entry_def)

lemma find_entry_loop_chain:
  "path (nx_entry s) p as \<Longrightarrow> deref s c = Some p \<Longrightarrow>
   \<exists>c'. find_entry_loop s k c = Some c' \<and> deref s c' = Some (find_key s k as)"
proof (induction as arbitrary: p c)
  case Nil
  then show ?case by (subst find_entry_loop.simps) simp
next
  case (Cons a as)
  then obtain e where e: "p = Some a" "entry_at s a = Some e" "path (nx_entry s) (next_entry e) as"
    by (auto simp: nx_entry_Some)
  show ?case
  proof (cases "key_equal (key_kind s) (entry_key e) k")
    case True
    with e Cons.prems show ?thesis
      by (subst find_entry_loop.simps) (simp add: find_key_Cons key_matches_entry)
  next
    case False
    have "deref s (Next_entry_of a) = Some (next_entry e)" using e by simp
    from Cons.IH [OF e(3) this] obtain c' where
      "find_entry_loop s k (Next_entry_of a) = Some c'" "deref s c' = Some (find_key s k as)"
      by blast
    with e False Cons.prems show ?thesis
      by (subst find_entry_loop.simps) (simp add: find_key_Cons key_matches_entry)
  qed
qed

lemma chain_end_loop_chain:
  "path (nx_entry s) p as \<Longrightarrow> as \<noteq> [] \<Longrightarrow> deref s c = Some p \<Longrightarrow>
   \<exists>c'. chain_end_loop s c = Some c' \<and> deref s c' = Some (Some (last as))"
proof (induction as arbitrary: p c)
  case Nil
  then show ?case by simp
next
  case (Cons a as)
  then obtain e where e: "p = Some a" "entry_at s a = Some e" "path (nx_entry s) (next_entry e) as"
    by (auto simp: nx_entry_Some)
  show ?case
  proof (cases as)
    case Nil
    with e Cons.prems show ?thesis
      by (subst chain_end_loop.simps) simp
  next
    case (Cons b bs)
    with e have nb: "next_entry e = Some b" by simp
    have "deref s (Next_entry_of a) = Some (next_entry e)" using e by simp
    from Cons.IH [OF e(3) _ this] Cons obtain c' where
      "chain_end_loop s (Next_entry_of a) = Some c'" "deref s c' = Some (Some (last as))"
      by auto
    with e nb Cons Cons.prems show ?thesis
      by (subst chain_end_loop.simps) simp
  qed
qed

lemma get_loop_chain:
  "path (nx_entry s) p as \<Longrightarrow>
   get_loop s k p = Some (Option.bind (find_key s k as) (val_at s))"
proof (induction as arbitrary: p)
  case Nil
  then show ?case by (subst get_loop.simps) simp
next
  case (Cons a as)
  then obtain e where e: "p = Some a" "entry_at s a = Some e" "path (nx_entry s) (next_entry e) as"
    by (auto simp: nx_entry_Some)
  have va: "val_at s a = Some (entry_value e)" using e by (simp add: val_at_def)
  from Cons.IH [OF e(3)] e va show ?case
    by (subst get_loop.simps) (simp add: find_key_Cons key_matches_entry)
qed

lemma next_fault_eq: "next_fault s = (alloc_ok s, s\<lparr>faults := tl (faults s)\<rparr>)"
  by (cases "faults s") (simp_all add: next_fault_def alloc_ok_def)

lemma bucket_of_less:
  "table_ok s bs \<Longrightarrow> \<exists>h. hash_func s (table_size s) k = Some h \<and> unat h < length bs"
  unfolding table_ok_def hash_ok_def by (metis word_less_nat_alt)

lemma table_ok_live: "table_ok s bs \<Longrightarrow> i < length bs \<Longrightarrow> a \<in> set (bs ! i) \<Longrightarrow> a < length (entries s)"
  unfolding table_ok_def key_at_def entry_at_def by (fastforce split: if_splits)

lemma table_ok_chain:
  "table_ok s bs \<Longrightarrow> i < length bs \<Longrightarrow>
   \<exists>t cells. entry_table s = Some t \<and> table_at s t = Some cells \<and> i < length cells \<and>
     path (nx_entry s) (cells ! i) (bs ! i)"
  unfolding table_ok_def by auto

lemma table_ok_disjoint:
  "table_ok s bs \<Longrightarrow> i < length bs \<Longrightarrow> j < length bs \<Longrightarrow> a \<in> set (bs ! i) \<Longrightarrow>
   a \<in> set (bs ! j) \<Longrightarrow> i = j"
  unfolding table_ok_def by (metis option.inject)

text \<open>The key is in the table: the update branch.\<close>

lemma TABLE_PUT_update:
  assumes ok: "table_ok s bs" and h: "bucket_of s k = Some h"
    and f: "find_key s k (bs ! h) = Some a" and e: "entry_at s a = Some e"
  shows "HASHMAP_TABLE_PUT k v s =
     Some (None, s\<lparr>entries := (entries s)[a := Some (e\<lparr>entry_value := v\<rparr>)]\<rparr>)"
proof -
  from bucket_of_less [OF ok, of k] h obtain hv where
    hv: "hash_func s (table_size s) k = Some hv" "unat hv = h" "h < length bs"
    by (auto simp: bucket_of_def)
  from table_ok_chain [OF ok hv(3)] obtain t cells where
    t: "entry_table s = Some t" "table_at s t = Some cells" "h < length cells"
      "path (nx_entry s) (cells ! h) (bs ! h)" by blast
  have d: "deref s (Cell t h) = Some (cells ! h)" using t by simp
  from find_entry_loop_chain [OF t(4) d, of k] f obtain c' where
    c': "find_entry_loop s k (Cell t h) = Some c'" "deref s c' = Some (Some a)" by auto
  show ?thesis
    using hv t c' e
    by (simp add: HASHMAP_TABLE_PUT_def HASHMAP_FIND_ENTRY_RECORD_def write_entry_def)
qed

text \<open>The key is not in its bucket and the allocation fails.\<close>

lemma TABLE_PUT_fail:
  assumes ok: "table_ok s bs" and h: "bucket_of s k = Some h"
    and f: "find_key s k (bs ! h) = None" and na: "\<not> alloc_ok s"
  shows "HASHMAP_TABLE_PUT k v s = Some (None, s\<lparr>faults := tl (faults s)\<rparr>)"
proof -
  from bucket_of_less [OF ok, of k] h obtain hv where
    hv: "hash_func s (table_size s) k = Some hv" "unat hv = h" "h < length bs"
    by (auto simp: bucket_of_def)
  from table_ok_chain [OF ok hv(3)] obtain t cells where
    t: "entry_table s = Some t" "table_at s t = Some cells" "h < length cells"
      "path (nx_entry s) (cells ! h) (bs ! h)" by blast
  have d: "deref s (Cell t h) = Some (cells ! h)" using t by simp
  from find_entry_loop_chain [OF t(4) d, of k] f obtain c' where
    c': "find_entry_loop s k (Cell t h) = Some c'" "deref s c' = Some None" by auto
  show ?thesis
    using hv t c' na
    by (simp add: HASHMAP_TABLE_PUT_def HASHMAP_FIND_ENTRY_RECORD_def calloc_entry_def
        next_fault_eq)
qed

text \<open>The key is not in its bucket and the allocation succeeds.\<close>

lemma TABLE_PUT_insert:
  assumes ok: "table_ok s bs" and h: "bucket_of s k = Some h"
    and f: "find_key s k (bs ! h) = None" and al: "alloc_ok s"
  shows "HASHMAP_TABLE_PUT k v s = Some (Some (length (entries s)), table_insert s bs h k v)"
proof -
  from bucket_of_less [OF ok, of k] h obtain hv where
    hv: "hash_func s (table_size s) k = Some hv" "unat hv = h" "h < length bs"
    by (auto simp: bucket_of_def)
  from table_ok_chain [OF ok hv(3)] obtain t cells where
    t: "entry_table s = Some t" "table_at s t = Some cells" "h < length cells"
      "path (nx_entry s) (cells ! h) (bs ! h)" by blast
  have d: "deref s (Cell t h) = Some (cells ! h)" using t by simp
  from find_entry_loop_chain [OF t(4) d, of k] f obtain c' where
    c': "find_entry_loop s k (Cell t h) = Some c'" "deref s c' = Some None" by auto
  define s1 where "s1 = s\<lparr>faults := tl (faults s), entries := entries s @ [Some (new_entry k v)]\<rparr>"
  have ce: "calloc_entry k v s = (Some (length (entries s)), s1)"
    using al by (simp add: calloc_entry_def next_fault_eq s1_def new_entry_def)
  have s1f: "hash_func s1 (table_size s1) k = Some hv" "entry_table s1 = Some t"
    "table_at s1 t = Some cells" "tables s1 = tables s"
    using hv t by (auto simp: s1_def table_at_def split: if_splits)
  have live: "\<And>a. a \<in> set (bs ! h) \<Longrightarrow> a < length (entries s)"
    using table_ok_live [OF ok hv(3)] by blast
  have ea: "\<And>a. a < length (entries s) \<Longrightarrow> entry_at s1 a = entry_at s a"
    by (simp add: s1_def entry_at_def nth_append)
  have p1: "path (nx_entry s1) (cells ! h) (bs ! h)"
    using t(4) live ea by (subst path_cong [where nx = "nx_entry s"]) (auto simp: nx_entry_def)
  have d1: "deref s1 (Cell t h) = Some (cells ! h)" using s1f t by simp
  show ?thesis
  proof (cases "bs ! h = []")
    case True
    with t(4) have "cells ! h = None" by simp
    then show ?thesis
      using hv t c' ce s1f d1 True
      by (simp add: HASHMAP_TABLE_PUT_def HASHMAP_FIND_ENTRY_RECORD_def write_cell_def
          table_insert_def s1_def)
  next
    case False
    with t(4) obtain b where b: "cells ! h = Some b" by (cases "bs ! h") auto
    from chain_end_loop_chain [OF p1 False d1] obtain cur where
      cur: "chain_end_loop s1 (Cell t h) = Some cur" "deref s1 cur = Some (Some (last (bs ! h)))"
      by blast
    have ll: "last (bs ! h) < length (entries s)" using live False by simp
    then obtain el where el: "entry_at s (last (bs ! h)) = Some el"
      using path_live [OF t(4), of "last (bs ! h)"] False by (auto simp: nx_entry_Some)
    have el1: "entry_at s1 (last (bs ! h)) = Some el" using ea [OF ll] el by simp
    show ?thesis
      using hv t c' ce s1f d1 False b cur el el1
      by (simp add: HASHMAP_TABLE_PUT_def HASHMAP_FIND_ENTRY_RECORD_def write_entry_def
          table_insert_def s1_def)
  qed
qed

lemma in_concat_nth: "a \<in> set (concat bs) \<longleftrightarrow> (\<exists>i<length bs. a \<in> set (bs ! i))"
  by (auto simp: in_set_conv_nth) (metis nth_mem)+

lemma table_ok_cong:
  assumes ok: "table_ok s bs"
    and "entry_table s' = entry_table s" "table_size s' = table_size s"
    and "hash_func s' = hash_func s"
    and "table_at s' (the (entry_table s)) = table_at s (the (entry_table s))"
    and fr: "\<And>a. a \<in> set (concat bs) \<Longrightarrow> nx_entry s' a = nx_entry s a \<and> key_at s' a = key_at s a"
  shows "table_ok s' bs"
proof -
  from ok obtain t cells where t: "entry_table s = Some t" "table_at s t = Some cells"
    "length cells = unat (table_size s)" "length bs = unat (table_size s)"
    "table_size s \<noteq> 0" "unat (table_size s) * 8 < 2 ^ 64" "hash_ok (hash_func s)"
    "\<forall>i<length bs. path (nx_entry s) (cells ! i) (bs ! i)"
    "\<forall>i<length bs. \<forall>a\<in>set (bs ! i). \<exists>k. key_at s a = Some k \<and> bucket_of s k = Some i"
    unfolding table_ok_def by blast
  have p: "path (nx_entry s') (cells ! i) (bs ! i)" if "i < length bs" for i
  proof -
    have "path (nx_entry s') (cells ! i) (bs ! i) = path (nx_entry s) (cells ! i) (bs ! i)"
    proof (rule path_cong)
      fix a assume "a \<in> set (bs ! i)"
      with that have "a \<in> set (concat bs)" by (subst in_concat_nth) blast
      then show "nx_entry s' a = nx_entry s a" using fr by blast
    qed
    with t(8) that show ?thesis by simp
  qed
  have b: "\<exists>k. key_at s' a = Some k \<and> bucket_of s' k = Some i"
    if "i < length bs" "a \<in> set (bs ! i)" for i a
  proof -
    have "a \<in> set (concat bs)" using that by (subst in_concat_nth) blast
    then have "key_at s' a = key_at s a" using fr by blast
    moreover have "bucket_of s' = bucket_of s" using assms by (simp add: bucket_of_def fun_eq_iff)
    ultimately show ?thesis using t(9) that by simp
  qed
  show ?thesis
    unfolding table_ok_def using t assms(2-5) p b
    by (intro exI [of _ t] exI [of _ cells]) simp
qed

lemma table_insert_fields [simp]:
  "key_kind (table_insert s bs h k v) = key_kind s"
  "table_size (table_insert s bs h k v) = table_size s"
  "num_entries (table_insert s bs h k v) = num_entries s"
  "entry_ll_head (table_insert s bs h k v) = entry_ll_head s"
  "entry_ll_tail (table_insert s bs h k v) = entry_ll_tail s"
  "entry_table (table_insert s bs h k v) = entry_table s"
  "hash_func (table_insert s bs h k v) = hash_func s"
  "nodes (table_insert s bs h k v) = nodes s"
  "faults (table_insert s bs h k v) = tl (faults s)"
  "length (entries (table_insert s bs h k v)) = Suc (length (entries s))"
  "length (tables (table_insert s bs h k v)) = length (tables s)"
  by (simp_all add: table_insert_def Let_def)

lemma table_insert_new:
  assumes ok: "table_ok s bs" and h: "h < length bs"
  shows "entry_at (table_insert s bs h k v) (length (entries s)) = Some (new_entry k v)"
proof -
  have "bs ! h \<noteq> [] \<Longrightarrow> last (bs ! h) < length (entries s)"
    using table_ok_live [OF ok h, of "last (bs ! h)"] by simp
  then show ?thesis
    by (auto simp: table_insert_def Let_def entry_at_def nth_append)
qed

lemma table_insert_kv:
  assumes ok: "table_ok s bs" and h: "h < length bs"
  shows "kv_at (table_insert s bs h k v) a =
     (if a = length (entries s) then Some (k, v) else kv_at s a)"
proof -
  have "bs ! h \<noteq> [] \<Longrightarrow> last (bs ! h) < length (entries s)"
    using table_ok_live [OF ok h, of "last (bs ! h)"] by simp
  then show ?thesis
    by (auto simp: table_insert_def Let_def kv_at_def entry_at_def nth_append new_entry_def
        nth_list_update option.map_comp comp_def)
qed

lemma table_insert_nx:
  assumes ok: "table_ok s bs" and h: "h < length bs"
  shows "nx_entry (table_insert s bs h k v) a =
     (if a = length (entries s) then Some None
      else if bs ! h \<noteq> [] \<and> a = last (bs ! h) then Some (Some (length (entries s)))
      else nx_entry s a)"
proof -
  have l: "bs ! h \<noteq> [] \<Longrightarrow> last (bs ! h) < length (entries s)"
    using table_ok_live [OF ok h, of "last (bs ! h)"] by simp
  have "bs ! h \<noteq> [] \<Longrightarrow> \<exists>e. entry_at s (last (bs ! h)) = Some e"
    using ok h unfolding table_ok_def key_at_def by (metis last_in_set option.map_disc_iff not_Some_eq)
  with l show ?thesis
    by (auto simp: table_insert_def Let_def nx_entry_def entry_at_def nth_append new_entry_def
        nth_list_update split: option.splits)
qed

lemma table_insert_key:
  assumes ok: "table_ok s bs" and h: "h < length bs"
  shows "key_at (table_insert s bs h k v) a =
     (if a = length (entries s) then Some k else key_at s a)"
proof -
  have "bs ! h \<noteq> [] \<Longrightarrow> last (bs ! h) < length (entries s)"
    using table_ok_live [OF ok h, of "last (bs ! h)"] by simp
  then show ?thesis
    by (auto simp: table_insert_def Let_def key_at_def entry_at_def nth_append new_entry_def
        nth_list_update option.map_comp comp_def)
qed

lemma table_insert_table:
  assumes ok: "table_ok s bs" and h: "h < length bs"
  shows "\<exists>t cells. entry_table s = Some t \<and> table_at s t = Some cells \<and>
     table_at (table_insert s bs h k v) t =
       Some (if bs ! h = [] then cells[h := Some (length (entries s))] else cells) \<and>
     (\<forall>t'. t' \<noteq> t \<longrightarrow> table_at (table_insert s bs h k v) t' = table_at s t')"
proof -
  from ok obtain t cells where t: "entry_table s = Some t" "table_at s t = Some cells"
    unfolding table_ok_def by blast
  then show ?thesis
    by (auto simp: table_insert_def Let_def table_at_def split: if_splits)
qed

lemma table_ok_insert:
  assumes ok: "table_ok s bs" and hk: "bucket_of s k = Some h"
  shows "table_ok (table_insert s bs h k v) (bs[h := bs ! h @ [length (entries s)]])"
proof -
  let ?s' = "table_insert s bs h k v" and ?n = "length (entries s)"
  let ?bs' = "bs[h := bs ! h @ [?n]]"
  from bucket_of_less [OF ok, of k] hk have h: "h < length bs" by (auto simp: bucket_of_def)
  from ok obtain t cells where t: "entry_table s = Some t" "table_at s t = Some cells"
    "length cells = unat (table_size s)" "length bs = unat (table_size s)"
    "table_size s \<noteq> 0" "unat (table_size s) * 8 < 2 ^ 64" "hash_ok (hash_func s)"
    "\<forall>i<length bs. path (nx_entry s) (cells ! i) (bs ! i)"
    "\<forall>i<length bs. \<forall>a\<in>set (bs ! i). \<exists>k. key_at s a = Some k \<and> bucket_of s k = Some i"
    unfolding table_ok_def by blast
  let ?cells' = "if bs ! h = [] then cells[h := Some ?n] else cells"
  from table_insert_table [OF ok h, of k v] t
  have t': "table_at ?s' t = Some ?cells'" by auto
  have live: "a < ?n" if "i < length bs" "a \<in> set (bs ! i)" for i a
    using table_ok_live [OF ok that] .
  have nx: "nx_entry ?s' a = (if a = ?n then Some None
      else if bs ! h \<noteq> [] \<and> a = last (bs ! h) then Some (Some ?n) else nx_entry s a)" for a
    by (rule table_insert_nx [OF ok h])
  have p: "path (nx_entry ?s') (?cells' ! i) (?bs' ! i)" if i: "i < length bs" for i
  proof (cases "i = h")
    case True
    show ?thesis
    proof (cases "bs ! h = []")
      case True
      with \<open>i = h\<close> h t nx show ?thesis by simp
    next
      case False
      have "path (nx_entry ?s') (cells ! h) (bs ! h @ [?n])"
      proof (rule path_snoc [where nx = "nx_entry s"])
        show "path (nx_entry s) (cells ! h) (bs ! h)" using t(8) h by simp
        show "bs ! h \<noteq> []" by fact
        show "?n \<notin> set (bs ! h)" using live [OF h] by auto
        show "nx_entry ?s' ?n = Some None" using nx by simp
        show "nx_entry ?s' (last (bs ! h)) = Some (Some ?n)"
          using nx False live [OF h, of "last (bs ! h)"] by simp
        fix a assume "a \<in> set (bs ! h)" "a \<noteq> last (bs ! h)"
        then show "nx_entry ?s' a = nx_entry s a" using nx live [OF h, of a] by simp
      qed
      with \<open>i = h\<close> h False show ?thesis by simp
    qed
  next
    case False
    have "path (nx_entry ?s') (cells ! i) (bs ! i) = path (nx_entry s) (cells ! i) (bs ! i)"
    proof (rule path_cong)
      fix a assume a: "a \<in> set (bs ! i)"
      have "a \<noteq> last (bs ! h)" if "bs ! h \<noteq> []"
        using table_ok_disjoint [OF ok i h a] that False by auto
      then show "nx_entry ?s' a = nx_entry s a" using nx live [OF i a] by auto
    qed
    with False i t(8) t(3,4) show ?thesis by simp
  qed
  have bo: "bucket_of ?s' = bucket_of s" by (simp add: bucket_of_def fun_eq_iff)
  have b: "\<exists>k'. key_at ?s' a = Some k' \<and> bucket_of ?s' k' = Some i"
    if i: "i < length bs" and a: "a \<in> set (?bs' ! i)" for i a
  proof (cases "a = ?n")
    case True
    have "i = h"
    proof (rule ccontr)
      assume "i \<noteq> h"
      with a i have "a \<in> set (bs ! i)" by simp
      with live [OF i] True show False by auto
    qed
    with True hk bo show ?thesis by (simp add: table_insert_key [OF ok h])
  next
    case False
    with a i h have "a \<in> set (bs ! i)" by (cases "i = h") auto
    with t(9) i False bo show ?thesis by (simp add: table_insert_key [OF ok h])
  qed
  show ?thesis
    unfolding table_ok_def
    apply (intro exI [of _ t] exI [of _ ?cells'])
    using t t' p b by simp
qed

lemma nx_node_Some: "nx_node s n = Some q \<longleftrightarrow> (\<exists>d. node_at s n = Some d \<and> next_node d = q)"
  by (auto simp: nx_node_def)

lemma ll_ok_live: "ll_ok s ns \<Longrightarrow> n \<in> set ns \<Longrightarrow> n < length (nodes s)"
proof -
  assume "ll_ok s ns" "n \<in> set ns"
  then obtain q where "nx_node s n = Some q"
    unfolding ll_ok_def using path_live [of "nx_node s" _ ns n] by blast
  then show ?thesis by (auto simp: nx_node_Some node_at_def split: if_splits)
qed

lemma LL_PUT_fail:
  "\<not> alloc_ok s \<Longrightarrow> HASHMAP_LL_PUT e s = Some (- 1, s\<lparr>faults := tl (faults s)\<rparr>)"
  by (simp add: HASHMAP_LL_PUT_def calloc_node_def next_fault_eq)

lemma LL_PUT_ok:
  assumes ok: "ll_ok s ns" and e: "entry_at s e = Some en" and al: "alloc_ok s"
  shows "HASHMAP_LL_PUT e s = Some (0, ll_append s ns e)"
proof (cases "ns = []")
  case True
  with ok have ht: "entry_ll_head s = None" "entry_ll_tail s = None" by (auto simp: ll_ok_def)
  have e1: "e < length (entries s)" "entries s ! e = Some en"
    using e by (auto simp: entry_at_def split: if_splits)
  show ?thesis
    using True ht e1 al
    by (simp add: HASHMAP_LL_PUT_def calloc_node_def next_fault_eq ll_append_def Let_def
        node_at_def write_node_def entry_at_def write_entry_def HASHMAP_LL_ADD_TAIL_def
        HASHMAP_LL_ADD_HEAD_def nth_append)
next
  case False
  with ok have tl: "entry_ll_tail s = Some (last ns)" by (auto simp: ll_ok_def)
  from ok False have "nx_node s (last ns) = Some None"
    by (auto simp: ll_ok_def intro: path_last)
  then obtain d where d: "node_at s (last ns) = Some d" "next_node d = None"
    by (auto simp: nx_node_Some)
  have l: "last ns < length (nodes s)" using ll_ok_live [OF ok, of "last ns"] False by simp
  have d1: "nodes s ! last ns = Some d" using d l by (simp add: node_at_def)
  have e1: "e < length (entries s)" "entries s ! e = Some en"
    using e by (auto simp: entry_at_def split: if_splits)
  show ?thesis
    using False tl d1 d(2) l e1 al
    by (simp add: HASHMAP_LL_PUT_def calloc_node_def next_fault_eq ll_append_def Let_def
        node_at_def write_node_def entry_at_def write_entry_def HASHMAP_LL_ADD_TAIL_def
        HASHMAP_LL_ADD_AFTER_def nth_append nth_list_update list_update_append)
qed

lemma ll_append_fields [simp]:
  "key_kind (ll_append s ns e) = key_kind s"
  "table_size (ll_append s ns e) = table_size s"
  "num_entries (ll_append s ns e) = num_entries s"
  "entry_table (ll_append s ns e) = entry_table s"
  "hash_func (ll_append s ns e) = hash_func s"
  "tables (ll_append s ns e) = tables s"
  "faults (ll_append s ns e) = tl (faults s)"
  "length (entries (ll_append s ns e)) = length (entries s)"
  "length (nodes (ll_append s ns e)) = Suc (length (nodes s))"
  by (simp_all add: ll_append_def Let_def)

lemma ll_append_kv [simp]: "kv_at (ll_append s ns e) = kv_at s"
  by (auto simp: fun_eq_iff ll_append_def Let_def kv_at_def entry_at_def nth_list_update
      option.map_comp comp_def)

lemma ll_append_key [simp]: "key_at (ll_append s ns e) = key_at s"
  by (auto simp: fun_eq_iff ll_append_def Let_def key_at_def entry_at_def nth_list_update
      option.map_comp comp_def)

lemma ll_append_nx_entry [simp]: "nx_entry (ll_append s ns e) = nx_entry s"
  by (auto simp: fun_eq_iff ll_append_def Let_def nx_entry_def entry_at_def nth_list_update
      option.map_comp comp_def)

lemma ll_append_table_at [simp]: "table_at (ll_append s ns e) = table_at s"
  by (simp add: fun_eq_iff table_at_def)

lemma ll_append_nx_node:
  assumes ok: "ll_ok s ns"
  shows "nx_node (ll_append s ns e) m =
     (if m = length (nodes s) then Some None
      else if ns \<noteq> [] \<and> m = last ns then Some (Some (length (nodes s)))
      else nx_node s m)"
proof -
  have l: "ns \<noteq> [] \<Longrightarrow> last ns < length (nodes s)"
    using ll_ok_live [OF ok, of "last ns"] by simp
  have "ns \<noteq> [] \<Longrightarrow> \<exists>d. node_at s (last ns) = Some d"
    using ok path_live [of "nx_node s" _ ns "last ns"] by (auto simp: ll_ok_def nx_node_Some)
  with l show ?thesis
    by (auto simp: ll_append_def Let_def nx_node_def node_at_def nth_append nth_list_update)
qed

lemma ll_append_node_entry:
  assumes ok: "ll_ok s ns"
  shows "node_entry (ll_append s ns e) m =
     (if m = length (nodes s) then Some e else node_entry s m)"
proof -
  have l: "ns \<noteq> [] \<Longrightarrow> last ns < length (nodes s)"
    using ll_ok_live [OF ok, of "last ns"] by simp
  have "ns \<noteq> [] \<Longrightarrow> \<exists>d. nodes s ! last ns = Some d"
    using ok l path_live [of "nx_node s" _ ns "last ns"]
    by (auto simp: ll_ok_def nx_node_Some node_at_def)
  with l show ?thesis
    by (auto simp: ll_append_def Let_def node_entry_def node_at_def nth_append nth_list_update)
qed

lemma ll_ok_append:
  assumes ok: "ll_ok s ns"
  shows "ll_ok (ll_append s ns e) (ns @ [length (nodes s)])"
proof -
  let ?s' = "ll_append s ns e" and ?n = "length (nodes s)"
  have nx: "nx_node ?s' m = (if m = ?n then Some None
      else if ns \<noteq> [] \<and> m = last ns then Some (Some ?n) else nx_node s m)" for m
    by (rule ll_append_nx_node [OF ok])
  have live: "m \<in> set ns \<Longrightarrow> m < ?n" for m using ll_ok_live [OF ok] .
  show ?thesis
  proof (cases "ns = []")
    case True
    then have "entry_ll_head ?s' = Some ?n" "entry_ll_tail ?s' = Some ?n"
      by (simp_all add: ll_append_def Let_def)
    with True nx show ?thesis by (simp add: ll_ok_def)
  next
    case False
    then have ht: "entry_ll_head ?s' = entry_ll_head s" "entry_ll_tail ?s' = Some ?n"
      by (simp_all add: ll_append_def Let_def)
    have "path (nx_node ?s') (entry_ll_head s) (ns @ [?n])"
    proof (rule path_snoc [where nx = "nx_node s"])
      show "path (nx_node s) (entry_ll_head s) ns" using ok by (simp add: ll_ok_def)
      show "ns \<noteq> []" by fact
      show "?n \<notin> set ns" using live by auto
      show "nx_node ?s' ?n = Some None" using nx by simp
      show "nx_node ?s' (last ns) = Some (Some ?n)" using nx False live [of "last ns"] by simp
      fix a assume "a \<in> set ns" "a \<noteq> last ns"
      then show "nx_node ?s' a = nx_node s a" using nx live [of a] by simp
    qed
    with ht show ?thesis by (simp add: ll_ok_def)
  qed
qed

lemma concat_update_snoc:
  "h < length bs \<Longrightarrow> set (concat (bs[h := bs ! h @ [n]])) = insert n (set (concat bs))"
proof -
  assume h: "h < length bs"
  have "a \<in> set (concat (bs[h := bs ! h @ [n]])) \<longleftrightarrow> a = n \<or> a \<in> set (concat bs)" for a
    unfolding in_concat_nth using h
    by (auto simp: nth_list_update split: if_splits)
  then show ?thesis by blast
qed

lemma rehash_loop_None [simp]: "rehash_loop s None = Some (0, s)"
  by (subst rehash_loop.simps) simp

lemma rehash_step_fields [simp]:
  "key_kind (rehash_step s bs n te h k v) = key_kind s"
  "table_size (rehash_step s bs n te h k v) = table_size s"
  "num_entries (rehash_step s bs n te h k v) = num_entries s"
  "entry_ll_head (rehash_step s bs n te h k v) = entry_ll_head s"
  "entry_ll_tail (rehash_step s bs n te h k v) = entry_ll_tail s"
  "entry_table (rehash_step s bs n te h k v) = entry_table s"
  "hash_func (rehash_step s bs n te h k v) = hash_func s"
  "faults (rehash_step s bs n te h k v) = tl (faults s)"
  "tables (rehash_step s bs n te h k v) = tables (table_insert s bs h k v)"
  "length (nodes (rehash_step s bs n te h k v)) = length (nodes s)"
  "length (entries (rehash_step s bs n te h k v)) = Suc (length (entries s))"
  by (simp_all add: rehash_step_def Let_def)

lemma rehash_step_table_at [simp]:
  "table_at (rehash_step s bs n te h k v) = table_at (table_insert s bs h k v)"
  by (simp add: fun_eq_iff table_at_def)

lemma rehash_step_entry_at:
  "entry_at (rehash_step s bs n te h k v) a =
     (if a = te \<and> te \<le> length (entries s) then None else entry_at (table_insert s bs h k v) a)"
  by (auto simp: rehash_step_def Let_def entry_at_def nth_list_update)

lemma rehash_step_nx_node [simp]: "nx_node (rehash_step s bs n te h k v) = nx_node s"
  by (auto simp: fun_eq_iff rehash_step_def Let_def nx_node_def node_at_def nth_list_update
      option.map_comp comp_def)

lemma rehash_step_node_entry:
  "node_at s n \<noteq> None \<Longrightarrow>
   node_entry (rehash_step s bs n te h k v) m =
     (if m = n then Some (length (entries s)) else node_entry s m)"
  by (auto simp: rehash_step_def Let_def node_entry_def node_at_def nth_list_update
      split: if_splits)

text \<open>One turn of the loop, in the three ways \<^verbatim>\<open>_HASHMAP_TABLE_PUT\<close> can end.\<close>

lemma rehash_loop_insert:
  assumes ok: "table_ok s bs" and nd: "node_at s n = Some d" "table_entry d = Some te"
    and e: "entry_at s te = Some e" and h: "bucket_of s (entry_key e) = Some h"
    and f: "find_key s (entry_key e) (bs ! h) = None" and al: "alloc_ok s"
  shows "rehash_loop s (Some n) =
     rehash_loop (rehash_step s bs n te h (entry_key e) (entry_value e)) (next_node d)"
proof -
  let ?s1 = "table_insert s bs h (entry_key e) (entry_value e)"
  from bucket_of_less [OF ok, of "entry_key e"] h have hl: "h < length bs"
    by (auto simp: bucket_of_def)
  have tp: "HASHMAP_TABLE_PUT (entry_key e) (entry_value e) s = Some (Some (length (entries s)), ?s1)"
    by (rule TABLE_PUT_insert [OF ok h f al])
  have n1: "node_at ?s1 n = Some d" using nd by (auto simp: node_at_def split: if_splits)
  have te: "te < length (entries s)" using e by (auto simp: entry_at_def split: if_splits)
  have e1: "entry_at ?s1 te \<noteq> None"
    using table_insert_kv [OF ok hl, of "entry_key e" "entry_value e" te] e te
    by (auto simp: kv_at_def)
  have nl: "n < length (nodes s)" using nd by (auto simp: node_at_def split: if_splits)
  show ?thesis
    apply (subst rehash_loop.simps)
    using nd e tp n1 e1 nl
    apply (simp add: write_node_def free_entry_def rehash_step_def Let_def node_at_def)
    apply (auto simp: entry_at_def split: if_splits)
    done
qed

lemma rehash_loop_update:
  assumes ok: "table_ok s bs" and nd: "node_at s n = Some d" "table_entry d = Some te"
    and e: "entry_at s te = Some e" and h: "bucket_of s (entry_key e) = Some h"
    and f: "find_key s (entry_key e) (bs ! h) = Some a" and a: "entry_at s a = Some ea"
  shows "rehash_loop s (Some n) =
     Some (- 1, s\<lparr>entries := (entries s)[a := Some (ea\<lparr>entry_value := entry_value e\<rparr>)]\<rparr>)"
  apply (subst rehash_loop.simps)
  using nd e TABLE_PUT_update [OF ok h f a, of "entry_value e"]
  apply simp
  done

lemma rehash_loop_fail:
  assumes ok: "table_ok s bs" and nd: "node_at s n = Some d" "table_entry d = Some te"
    and e: "entry_at s te = Some e" and h: "bucket_of s (entry_key e) = Some h"
    and f: "find_key s (entry_key e) (bs ! h) = None" and al: "\<not> alloc_ok s"
  shows "rehash_loop s (Some n) = Some (- 1, s\<lparr>faults := tl (faults s)\<rparr>)"
  apply (subst rehash_loop.simps)
  using nd e TABLE_PUT_fail [OF ok h f al, of "entry_value e"]
  apply simp
  done

lemma ll_ok_distinct: "ll_ok s ns \<Longrightarrow> distinct ns"
  unfolding ll_ok_def by (blast intro: path_distinct)

lemma drop_Suc_nth_neq:
  assumes "distinct ns" "j < length ns" "m \<in> set (drop (Suc j) ns)"
  shows "m \<noteq> ns ! j" "m \<in> set (drop j ns)"
proof -
  from assms(3) obtain i where i: "i < length ns - Suc j" "m = ns ! (Suc j + i)"
    by (auto simp: in_set_conv_nth)
  with assms(1,2) show "m \<noteq> ns ! j" by (auto simp: nth_eq_iff_index_eq)
  from assms(3) show "m \<in> set (drop j ns)" by (metis Suc_n_not_le_n nat_le_linear set_drop_subset_set_drop subsetD)
qed

lemma entry_live_kv: "entry_at s a \<noteq> None \<longleftrightarrow> kv_at s a \<noteq> None"
  by (simp add: kv_at_def)

lemma entry_live_less: "entry_at s a \<noteq> None \<Longrightarrow> a < length (entries s)"
  by (auto simp: entry_at_def split: if_splits)

lemma safe_inv_step:
  assumes inv: "safe_inv s bs ns j" and j: "j < length ns"
    and nd: "node_at s (ns ! j) = Some d" "table_entry d = Some te"
    and hk: "bucket_of s k = Some h"
  shows "safe_inv (rehash_step s bs (ns ! j) te h k v) (bs[h := bs ! h @ [length (entries s)]]) ns
     (Suc j)"
proof -
  let ?n = "ns ! j" and ?new = "length (entries s)"
  let ?s1 = "table_insert s bs h k v"
  let ?s3 = "rehash_step s bs ?n te h k v"
  let ?bs' = "bs[h := bs ! h @ [?new]]"
  from inv have ok: "table_ok s bs" and ll: "ll_ok s ns"
    and live: "\<forall>n\<in>set ns. \<exists>a. node_entry s n = Some a \<and> entry_at s a \<noteq> None"
    and dist: "distinct (map (node_entry s) ns)"
    and todo: "\<forall>n\<in>set (drop j ns). \<forall>a. node_entry s n = Some a \<longrightarrow> a \<notin> set (concat bs)"
    by (auto simp: safe_inv_def)
  from bucket_of_less [OF ok, of k] hk have hl: "h < length bs" by (auto simp: bucket_of_def)
  have dns: "distinct ns" by (rule ll_ok_distinct [OF ll])
  have nin: "?n \<in> set ns" using j by simp
  have ne_n: "node_entry s ?n = Some te" using nd by (simp add: node_entry_def)
  have te_live: "entry_at s te \<noteq> None" using live nin ne_n by auto
  have te_less: "te < ?new" using te_live by (rule entry_live_less)
  have "?n \<in> set (drop j ns)" using j by (metis Cons_nth_drop_Suc list.set_intros(1))
  with todo ne_n have te_nin: "te \<notin> set (concat bs)" by blast
  have cs: "set (concat ?bs') = insert ?new (set (concat bs))"
    by (rule concat_update_snoc [OF hl])
  have e3: "entry_at ?s3 a = (if a = te then None else entry_at ?s1 a)" for a
    using te_less by (simp add: rehash_step_entry_at)
  have kv1: "kv_at ?s1 a = (if a = ?new then Some (k, v) else kv_at s a)" for a
    by (rule table_insert_kv [OF ok hl])
  have live1: "entry_at ?s1 a \<noteq> None" if "a = ?new \<or> entry_at s a \<noteq> None" for a
    using that kv1 [of a] by (auto simp: kv_at_def split: if_splits)
  have ne3: "node_entry ?s3 m = (if m = ?n then Some ?new else node_entry s m)" for m
    using nd by (simp add: rehash_step_node_entry)
  have other: "a \<noteq> te" if "m \<in> set ns" "m \<noteq> ?n" "node_entry s m = Some a" for m a
  proof
    assume "a = te"
    with that ne_n have "node_entry s m = node_entry s ?n" by simp
    with dist that nin show False by (auto simp: distinct_map inj_on_def)
  qed
  \<comment> \<open>the table\<close>
  have ok1: "table_ok ?s1 ?bs'" by (rule table_ok_insert [OF ok hk])
  have "table_ok ?s3 ?bs'"
  proof (rule table_ok_cong [OF ok1])
    fix a assume "a \<in> set (concat ?bs')"
    with cs te_nin te_less have "a \<noteq> te" by auto
    then have "entry_at ?s3 a = entry_at ?s1 a" by (simp add: e3)
    then show "nx_entry ?s3 a = nx_entry ?s1 a \<and> key_at ?s3 a = key_at ?s1 a"
      by (simp add: nx_entry_def key_at_def)
  qed simp_all
  \<comment> \<open>the list\<close>
  moreover have "ll_ok ?s3 ns" using ll by (simp add: ll_ok_def)
  \<comment> \<open>every node has a live entry\<close>
  moreover have "\<forall>m\<in>set ns. \<exists>a. node_entry ?s3 m = Some a \<and> entry_at ?s3 a \<noteq> None"
  proof
    fix m assume m: "m \<in> set ns"
    show "\<exists>a. node_entry ?s3 m = Some a \<and> entry_at ?s3 a \<noteq> None"
    proof (cases "m = ?n")
      case True
      have "entry_at ?s3 ?new \<noteq> None"
        using te_less live1 [of ?new] by (simp add: e3)
      with True ne3 show ?thesis by simp
    next
      case False
      from live m obtain a where a: "node_entry s m = Some a" "entry_at s a \<noteq> None" by blast
      from other [OF m False a(1)] have "a \<noteq> te" .
      moreover have "a \<noteq> ?new" using entry_live_less [OF a(2)] by simp
      ultimately have "entry_at ?s3 a \<noteq> None"
        using a(2) live1 [of a] by (simp add: e3)
      with False a ne3 show ?thesis by simp
    qed
  qed
  \<comment> \<open>no two nodes share an entry\<close>
  moreover have "distinct (map (node_entry ?s3) ns)"
  proof -
    have eq: "map (node_entry ?s3) ns = (map (node_entry s) ns)[j := Some ?new]"
      using dns j by (auto simp: list_eq_iff_nth_eq ne3 nth_list_update nth_eq_iff_index_eq)
    have "Some ?new \<notin> set (map (node_entry s) ns)"
    proof
      assume "Some ?new \<in> set (map (node_entry s) ns)"
      then obtain m where "m \<in> set ns" "node_entry s m = Some ?new" by auto
      with live have "entry_at s ?new \<noteq> None" by fastforce
      then show False by (simp add: entry_at_def)
    qed
    with dist show ?thesis unfolding eq by (intro distinct_list_update) auto
  qed
  \<comment> \<open>the entries of the nodes to come are not in the table\<close>
  moreover have "\<forall>m\<in>set (drop (Suc j) ns). \<forall>a. node_entry ?s3 m = Some a \<longrightarrow>
      a \<notin> set (concat ?bs')"
  proof (intro ballI allI impI)
    fix m a assume m: "m \<in> set (drop (Suc j) ns)" and a: "node_entry ?s3 m = Some a"
    from drop_Suc_nth_neq [OF dns j m] have mn: "m \<noteq> ?n" "m \<in> set (drop j ns)" .
    with a ne3 have a': "node_entry s m = Some a" by simp
    with todo mn have "a \<notin> set (concat bs)" by blast
    moreover have "m \<in> set ns" using mn(2) by (meson in_set_dropD)
    with live a' have "entry_at s a \<noteq> None" by fastforce
    then have "a \<noteq> ?new" by (auto simp: entry_at_def)
    ultimately show "a \<notin> set (concat ?bs')" using cs by simp
  qed
  ultimately show ?thesis by (simp add: safe_inv_def)
qed

lemma entry_at_frame [simp]:
  "entry_at (s\<lparr>faults := f\<rparr>) = entry_at s"
  "entry_at (s\<lparr>nodes := ns\<rparr>) = entry_at s"
  "entry_at (s\<lparr>tables := ts\<rparr>) = entry_at s"
  "entry_at (s\<lparr>table_size := n\<rparr>) = entry_at s"
  "entry_at (s\<lparr>num_entries := n\<rparr>) = entry_at s"
  "entry_at (s\<lparr>entry_ll_head := p\<rparr>) = entry_at s"
  "entry_at (s\<lparr>entry_ll_tail := p\<rparr>) = entry_at s"
  "entry_at (s\<lparr>entry_table := p\<rparr>) = entry_at s"
  "entry_at (s\<lparr>hash_func := hf\<rparr>) = entry_at s"
  by (simp_all add: fun_eq_iff entry_at_def)

lemma node_at_frame [simp]:
  "node_at (s\<lparr>faults := f\<rparr>) = node_at s"
  "node_at (s\<lparr>entries := es\<rparr>) = node_at s"
  "node_at (s\<lparr>tables := ts\<rparr>) = node_at s"
  "node_at (s\<lparr>table_size := n\<rparr>) = node_at s"
  "node_at (s\<lparr>num_entries := n\<rparr>) = node_at s"
  "node_at (s\<lparr>entry_ll_head := p\<rparr>) = node_at s"
  "node_at (s\<lparr>entry_ll_tail := p\<rparr>) = node_at s"
  "node_at (s\<lparr>entry_table := p\<rparr>) = node_at s"
  "node_at (s\<lparr>hash_func := hf\<rparr>) = node_at s"
  by (simp_all add: fun_eq_iff node_at_def)

lemma table_at_frame [simp]:
  "table_at (s\<lparr>faults := f\<rparr>) = table_at s"
  "table_at (s\<lparr>entries := es\<rparr>) = table_at s"
  "table_at (s\<lparr>nodes := ns\<rparr>) = table_at s"
  "table_at (s\<lparr>table_size := n\<rparr>) = table_at s"
  "table_at (s\<lparr>num_entries := n\<rparr>) = table_at s"
  "table_at (s\<lparr>entry_ll_head := p\<rparr>) = table_at s"
  "table_at (s\<lparr>entry_ll_tail := p\<rparr>) = table_at s"
  "table_at (s\<lparr>entry_table := p\<rparr>) = table_at s"
  "table_at (s\<lparr>hash_func := hf\<rparr>) = table_at s"
  by (simp_all add: fun_eq_iff table_at_def)

lemma entry_views_frame [simp]:
  "nx_entry (s\<lparr>faults := f\<rparr>) = nx_entry s"
  "nx_entry (s\<lparr>nodes := ns\<rparr>) = nx_entry s"
  "nx_entry (s\<lparr>tables := ts\<rparr>) = nx_entry s"
  "nx_entry (s\<lparr>table_size := n\<rparr>) = nx_entry s"
  "nx_entry (s\<lparr>num_entries := n\<rparr>) = nx_entry s"
  "nx_entry (s\<lparr>entry_ll_head := p\<rparr>) = nx_entry s"
  "nx_entry (s\<lparr>entry_ll_tail := p\<rparr>) = nx_entry s"
  "nx_entry (s\<lparr>entry_table := p\<rparr>) = nx_entry s"
  "nx_entry (s\<lparr>hash_func := hf\<rparr>) = nx_entry s"
  "key_at (s\<lparr>faults := f\<rparr>) = key_at s"
  "key_at (s\<lparr>nodes := ns\<rparr>) = key_at s"
  "key_at (s\<lparr>tables := ts\<rparr>) = key_at s"
  "key_at (s\<lparr>table_size := n\<rparr>) = key_at s"
  "key_at (s\<lparr>num_entries := n\<rparr>) = key_at s"
  "key_at (s\<lparr>entry_ll_head := p\<rparr>) = key_at s"
  "key_at (s\<lparr>entry_ll_tail := p\<rparr>) = key_at s"
  "key_at (s\<lparr>entry_table := p\<rparr>) = key_at s"
  "key_at (s\<lparr>hash_func := hf\<rparr>) = key_at s"
  "kv_at (s\<lparr>faults := f\<rparr>) = kv_at s"
  "kv_at (s\<lparr>nodes := ns\<rparr>) = kv_at s"
  "kv_at (s\<lparr>tables := ts\<rparr>) = kv_at s"
  "kv_at (s\<lparr>table_size := n\<rparr>) = kv_at s"
  "kv_at (s\<lparr>num_entries := n\<rparr>) = kv_at s"
  "kv_at (s\<lparr>entry_ll_head := p\<rparr>) = kv_at s"
  "kv_at (s\<lparr>entry_ll_tail := p\<rparr>) = kv_at s"
  "kv_at (s\<lparr>entry_table := p\<rparr>) = kv_at s"
  "kv_at (s\<lparr>hash_func := hf\<rparr>) = kv_at s"
  "val_at (s\<lparr>faults := f\<rparr>) = val_at s"
  "val_at (s\<lparr>nodes := ns\<rparr>) = val_at s"
  "val_at (s\<lparr>tables := ts\<rparr>) = val_at s"
  "val_at (s\<lparr>table_size := n\<rparr>) = val_at s"
  "val_at (s\<lparr>num_entries := n\<rparr>) = val_at s"
  "val_at (s\<lparr>entry_ll_head := p\<rparr>) = val_at s"
  "val_at (s\<lparr>entry_ll_tail := p\<rparr>) = val_at s"
  "val_at (s\<lparr>entry_table := p\<rparr>) = val_at s"
  "val_at (s\<lparr>hash_func := hf\<rparr>) = val_at s"
  by (simp_all add: fun_eq_iff nx_entry_def key_at_def kv_at_def val_at_def)

lemma node_views_frame [simp]:
  "nx_node (s\<lparr>faults := f\<rparr>) = nx_node s"
  "nx_node (s\<lparr>entries := es\<rparr>) = nx_node s"
  "nx_node (s\<lparr>tables := ts\<rparr>) = nx_node s"
  "nx_node (s\<lparr>table_size := n\<rparr>) = nx_node s"
  "nx_node (s\<lparr>num_entries := n\<rparr>) = nx_node s"
  "nx_node (s\<lparr>entry_ll_head := p\<rparr>) = nx_node s"
  "nx_node (s\<lparr>entry_ll_tail := p\<rparr>) = nx_node s"
  "nx_node (s\<lparr>entry_table := p\<rparr>) = nx_node s"
  "nx_node (s\<lparr>hash_func := hf\<rparr>) = nx_node s"
  "node_entry (s\<lparr>faults := f\<rparr>) = node_entry s"
  "node_entry (s\<lparr>entries := es\<rparr>) = node_entry s"
  "node_entry (s\<lparr>tables := ts\<rparr>) = node_entry s"
  "node_entry (s\<lparr>table_size := n\<rparr>) = node_entry s"
  "node_entry (s\<lparr>num_entries := n\<rparr>) = node_entry s"
  "node_entry (s\<lparr>entry_ll_head := p\<rparr>) = node_entry s"
  "node_entry (s\<lparr>entry_ll_tail := p\<rparr>) = node_entry s"
  "node_entry (s\<lparr>entry_table := p\<rparr>) = node_entry s"
  "node_entry (s\<lparr>hash_func := hf\<rparr>) = node_entry s"
  by (simp_all add: fun_eq_iff nx_node_def node_entry_def)

lemma rehash_frame_refl [simp]: "rehash_frame s s"
  by (simp add: rehash_frame_def)

lemma rehash_frame_trans: "rehash_frame s s1 \<Longrightarrow> rehash_frame s1 s2 \<Longrightarrow> rehash_frame s s2"
  by (simp add: rehash_frame_def)

lemma path_nth_next:
  "path nx p as \<Longrightarrow> j < length as \<Longrightarrow>
   nx (as ! j) = Some (if Suc j < length as then Some (as ! Suc j) else None)"
proof (induction as arbitrary: p j)
  case Nil
  then show ?case by simp
next
  case (Cons a as)
  then obtain q where q: "nx a = Some q" "path nx q as" by auto
  show ?case
  proof (cases j)
    case 0
    with q path_hd [OF q(2)] show ?thesis by (cases as) auto
  next
    case (Suc i)
    with Cons.IH [OF q(2), of i] Cons.prems show ?thesis by simp
  qed
qed

lemma safe_inv_cong:
  assumes inv: "safe_inv s bs ns j"
    and "entry_table s' = entry_table s" "table_size s' = table_size s"
    and "hash_func s' = hash_func s"
    and "table_at s' (the (entry_table s)) = table_at s (the (entry_table s))"
    and "\<And>a. a \<in> set (concat bs) \<Longrightarrow> nx_entry s' a = nx_entry s a \<and> key_at s' a = key_at s a"
    and "entry_ll_head s' = entry_ll_head s" "entry_ll_tail s' = entry_ll_tail s"
    and nn: "\<And>n. n \<in> set ns \<Longrightarrow> nx_node s' n = nx_node s n \<and> node_entry s' n = node_entry s n"
    and lv: "\<And>a. entry_at s a \<noteq> None \<Longrightarrow> entry_at s' a \<noteq> None"
  shows "safe_inv s' bs ns j"
proof -
  from inv have ok: "table_ok s bs" and ll: "ll_ok s ns"
    and live: "\<forall>n\<in>set ns. \<exists>a. node_entry s n = Some a \<and> entry_at s a \<noteq> None"
    and dist: "distinct (map (node_entry s) ns)"
    and todo: "\<forall>n\<in>set (drop j ns). \<forall>a. node_entry s n = Some a \<longrightarrow> a \<notin> set (concat bs)"
    by (auto simp: safe_inv_def)
  have "table_ok s' bs" using ok assms(2-6) by (rule table_ok_cong)
  moreover have "path (nx_node s') (entry_ll_head s) ns = path (nx_node s) (entry_ll_head s) ns"
    using nn by (intro path_cong) simp
  with ll assms(7,8) have "ll_ok s' ns" by (simp add: ll_ok_def)
  moreover have "\<forall>n\<in>set ns. \<exists>a. node_entry s' n = Some a \<and> entry_at s' a \<noteq> None"
    using live nn lv by fastforce
  moreover have meq: "map (node_entry s') ns = map (node_entry s) ns"
    by (rule map_cong) (simp_all add: nn)
  have "distinct (map (node_entry s') ns)" unfolding meq by (rule dist)
  moreover have "\<forall>n\<in>set (drop j ns). \<forall>a. node_entry s' n = Some a \<longrightarrow> a \<notin> set (concat bs)"
    using todo nn by (metis in_set_dropD)
  ultimately show ?thesis by (simp add: safe_inv_def)
qed

lemma safe_inv_faults: "safe_inv s bs ns j \<Longrightarrow> safe_inv (s\<lparr>faults := f\<rparr>) bs ns j"
  by (erule safe_inv_cong) simp_all

lemma safe_inv_value:
  assumes "safe_inv s bs ns j" "entry_at s a = Some e"
  shows "safe_inv (s\<lparr>entries := (entries s)[a := Some (e\<lparr>entry_value := v\<rparr>)]\<rparr>) bs ns j"
  using assms(1)
proof (rule safe_inv_cong)
  let ?s' = "s\<lparr>entries := (entries s)[a := Some (e\<lparr>entry_value := v\<rparr>)]\<rparr>"
  have ea: "entry_at ?s' b = (if b = a then Some (e\<lparr>entry_value := v\<rparr>) else entry_at s b)" for b
    using assms(2) by (auto simp: entry_at_def nth_list_update split: if_splits)
  show "nx_entry ?s' b = nx_entry s b \<and> key_at ?s' b = key_at s b" for b
    using assms(2) by (simp add: nx_entry_def key_at_def ea)
  show "entry_at s b \<noteq> None \<Longrightarrow> entry_at ?s' b \<noteq> None" for b
    by (simp add: ea)
qed simp_all

lemma safe_inv_weaken: "safe_inv s bs ns j \<Longrightarrow> j \<le> j' \<Longrightarrow> safe_inv s bs ns j'"
  unfolding safe_inv_def by (meson set_drop_subset_set_drop subsetD)

lemma find_key_Some: "find_key s k as = Some a \<Longrightarrow> a \<in> set as \<and> key_matches s k a"
  unfolding find_key_def by (auto simp: find_Some_iff)

lemma key_matches_live: "key_matches s k a \<Longrightarrow> \<exists>e. entry_at s a = Some e"
  by (auto simp: key_matches_def key_at_def split: option.splits)

lemma rehash_step_frame:
  assumes ok: "table_ok s bs" and hl: "h < length bs"
  shows "rehash_frame s (rehash_step s bs n te h k v)"
  using table_insert_table [OF ok hl, of k v]
  by (auto simp: rehash_frame_def)

lemma rehash_loop_safe:
  assumes "safe_inv s bs ns j" "j \<le> length ns"
    "cur = (if j < length ns then Some (ns ! j) else None)"
  shows "\<exists>r s' bs'. rehash_loop s cur = Some (r, s') \<and> safe_inv s' bs' ns (length ns) \<and>
     rehash_frame s s' \<and> (r = 0 \<or> r = - 1)"
  using assms
proof (induction "length ns - j" arbitrary: s bs j cur)
  case 0
  then have "cur = None" by simp
  with 0 show ?case by (auto intro: safe_inv_weaken)
next
  case (Suc x)
  then have j: "j < length ns" and cur: "cur = Some (ns ! j)" by auto
  let ?n = "ns ! j"
  from Suc.prems(1) have ok: "table_ok s bs" and ll: "ll_ok s ns"
    and live: "\<forall>n\<in>set ns. \<exists>a. node_entry s n = Some a \<and> entry_at s a \<noteq> None"
    by (auto simp: safe_inv_def)
  from live j obtain te e where te: "node_entry s ?n = Some te" "entry_at s te = Some e"
    by (metis nth_mem not_Some_eq)
  then obtain d where d: "node_at s ?n = Some d" "table_entry d = Some te"
    by (auto simp: node_entry_def split: option.splits)
  from bucket_of_less [OF ok, of "entry_key e"] obtain h where
    h: "bucket_of s (entry_key e) = Some h" "h < length bs" by (auto simp: bucket_of_def)
  show ?case
  proof (cases "find_key s (entry_key e) (bs ! h)")
    case (Some a)
    from find_key_Some [OF Some] obtain ea where ea: "entry_at s a = Some ea"
      using key_matches_live by blast
    let ?s' = "s\<lparr>entries := (entries s)[a := Some (ea\<lparr>entry_value := entry_value e\<rparr>)]\<rparr>"
    have "rehash_loop s cur = Some (- 1, ?s')"
      unfolding cur by (rule rehash_loop_update [OF ok d te(2) h(1) Some ea])
    moreover have "safe_inv ?s' bs ns (length ns)"
      using safe_inv_value [OF Suc.prems(1) ea, of "entry_value e"] j
      by (auto intro: safe_inv_weaken)
    moreover have "rehash_frame s ?s'" by (simp add: rehash_frame_def)
    ultimately show ?thesis by blast
  next
    case None
    show ?thesis
    proof (cases "alloc_ok s")
      case False
      let ?s' = "s\<lparr>faults := tl (faults s)\<rparr>"
      have "rehash_loop s cur = Some (- 1, ?s')"
        unfolding cur by (rule rehash_loop_fail [OF ok d te(2) h(1) None False])
      moreover have "safe_inv ?s' bs ns (length ns)"
        using safe_inv_faults [OF Suc.prems(1), of "tl (faults s)"] j
        by (auto intro: safe_inv_weaken)
      moreover have "rehash_frame s ?s'" by (simp add: rehash_frame_def)
      ultimately show ?thesis by blast
    next
      case True
      let ?s3 = "rehash_step s bs ?n te h (entry_key e) (entry_value e)"
      let ?bs' = "bs[h := bs ! h @ [length (entries s)]]"
      have step: "rehash_loop s cur = rehash_loop ?s3 (next_node d)"
        unfolding cur by (rule rehash_loop_insert [OF ok d te(2) h(1) None True])
      have inv3: "safe_inv ?s3 ?bs' ns (Suc j)"
        by (rule safe_inv_step [OF Suc.prems(1) j d h(1)])
      from ll j have "nx_node s ?n = Some (if Suc j < length ns then Some (ns ! Suc j) else None)"
        unfolding ll_ok_def by (blast intro: path_nth_next)
      with d have nxt: "next_node d = (if Suc j < length ns then Some (ns ! Suc j) else None)"
        by (simp add: nx_node_def)
      have "x = length ns - Suc j" using Suc.hyps(2) by simp
      from Suc.hyps(1) [OF this inv3 _ nxt] j obtain r s' bs'' where
        r: "rehash_loop ?s3 (next_node d) = Some (r, s')" "safe_inv s' bs'' ns (length ns)"
          "rehash_frame ?s3 s'" "r = 0 \<or> r = - 1" by auto
      have "rehash_frame s s'"
        using rehash_step_frame [OF ok h(2)] r(3) by (rule rehash_frame_trans)
      with step r show ?thesis by auto
    qed
  qed
qed

lemma safe_inv_insert:
  assumes inv: "safe_inv s bs ns (length ns)" and hk: "bucket_of s k = Some h"
  shows "safe_inv (table_insert s bs h k v) (bs[h := bs ! h @ [length (entries s)]]) ns (length ns)"
proof -
  let ?s1 = "table_insert s bs h k v"
  from inv have ok: "table_ok s bs" and ll: "ll_ok s ns"
    and live: "\<forall>n\<in>set ns. \<exists>a. node_entry s n = Some a \<and> entry_at s a \<noteq> None"
    and dist: "distinct (map (node_entry s) ns)"
    by (auto simp: safe_inv_def)
  from bucket_of_less [OF ok, of k] hk have hl: "h < length bs" by (auto simp: bucket_of_def)
  have nd: "node_at ?s1 = node_at s" by (simp add: fun_eq_iff node_at_def)
  then have nv: "nx_node ?s1 = nx_node s" "node_entry ?s1 = node_entry s"
    by (simp_all add: fun_eq_iff nx_node_def node_entry_def)
  have live1: "entry_at ?s1 a \<noteq> None" if "entry_at s a \<noteq> None" for a
    using that table_insert_kv [OF ok hl, of k v a] by (auto simp: kv_at_def split: if_splits)
  have "table_ok ?s1 (bs[h := bs ! h @ [length (entries s)]])" by (rule table_ok_insert [OF ok hk])
  moreover have "ll_ok ?s1 ns" using ll by (simp add: ll_ok_def nv)
  moreover have "\<forall>n\<in>set ns. \<exists>a. node_entry ?s1 n = Some a \<and> entry_at ?s1 a \<noteq> None"
    using live live1 by (fastforce simp: nv)
  ultimately show ?thesis using dist by (simp add: safe_inv_def nv)
qed

lemma safe_inv_append:
  assumes inv: "safe_inv s bs ns (length ns)" and e: "entry_at s e \<noteq> None"
    and fresh: "\<forall>n\<in>set ns. node_entry s n \<noteq> Some e"
  shows "safe_inv (ll_append s ns e) bs (ns @ [length (nodes s)]) (Suc (length ns))"
proof -
  let ?s' = "ll_append s ns e" and ?n = "length (nodes s)"
  from inv have ok: "table_ok s bs" and ll: "ll_ok s ns"
    and live: "\<forall>n\<in>set ns. \<exists>a. node_entry s n = Some a \<and> entry_at s a \<noteq> None"
    and dist: "distinct (map (node_entry s) ns)"
    by (auto simp: safe_inv_def)
  have ne: "node_entry ?s' m = (if m = ?n then Some e else node_entry s m)" for m
    by (rule ll_append_node_entry [OF ll])
  have nl: "m \<in> set ns \<Longrightarrow> m \<noteq> ?n" for m using ll_ok_live [OF ll, of m] by auto
  have lv0: "entry_at ?s' a \<noteq> None \<longleftrightarrow> entry_at s a \<noteq> None" for a
    unfolding entry_live_kv by simp
  have lv: "(\<exists>y. entry_at ?s' a = Some y) = (\<exists>y. entry_at s a = Some y)" for a
    using lv0 [of a] by simp
  have "table_ok ?s' bs" using ok by (rule table_ok_cong) simp_all
  moreover have "ll_ok ?s' (ns @ [?n])" by (rule ll_ok_append [OF ll])
  moreover have "\<forall>m\<in>set (ns @ [?n]). \<exists>a. node_entry ?s' m = Some a \<and> entry_at ?s' a \<noteq> None"
    using live e nl by (auto simp: ne lv)
  moreover have meq: "map (node_entry ?s') ns = map (node_entry s) ns"
    by (rule map_cong) (use nl in \<open>simp_all add: ne\<close>)
  have "distinct (map (node_entry ?s') (ns @ [?n]))"
    unfolding map_append meq using dist fresh by (auto simp: ne)
  ultimately show ?thesis by (simp add: safe_inv_def)
qed

lemma table_insert_put_frame:
  assumes ok: "table_ok s bs" and hl: "h < length bs"
  shows "put_frame s (table_insert s bs h k v)"
proof -
  from table_insert_table [OF ok hl, of k v] obtain t cells where
    t: "entry_table s = Some t" "table_at s t = Some cells"
      "table_at (table_insert s bs h k v) t =
         Some (if bs ! h = [] then cells[h := Some (length (entries s))] else cells)"
      "\<forall>t'. t' \<noteq> t \<longrightarrow> table_at (table_insert s bs h k v) t' = table_at s t'" by blast
  have "(table_at (table_insert s bs h k v) t' = None) = (table_at s t' = None)" for t'
    using t by (cases "t' = t") auto
  then show ?thesis by (simp add: put_frame_def)
qed

lemma put_entry_safe:
  assumes inv: "safe_inv s bs ns (length ns)"
  shows "\<exists>r s'. put_entry k v s = Some (r, s') \<and> safe s' \<and> put_frame s s' \<and> (r = 0 \<or> r = - 1)"
proof -
  from inv have ok: "table_ok s bs" and ll: "ll_ok s ns"
    and live: "\<forall>n\<in>set ns. \<exists>a. node_entry s n = Some a \<and> entry_at s a \<noteq> None"
    by (auto simp: safe_inv_def)
  from bucket_of_less [OF ok, of k] obtain h where
    h: "bucket_of s k = Some h" "h < length bs" by (auto simp: bucket_of_def)
  show ?thesis
  proof (cases "find_key s k (bs ! h)")
    case (Some a)
    from find_key_Some [OF Some] obtain ea where ea: "entry_at s a = Some ea"
      using key_matches_live by blast
    let ?s' = "s\<lparr>entries := (entries s)[a := Some (ea\<lparr>entry_value := v\<rparr>)]\<rparr>"
    have "put_entry k v s = Some (0, ?s')"
      by (simp add: put_entry_def TABLE_PUT_update [OF ok h(1) Some ea])
    moreover have "safe ?s'" using safe_inv_value [OF inv ea, of v] by (auto simp: safe_def)
    moreover have "put_frame s ?s'" by (simp add: put_frame_def)
    ultimately show ?thesis by blast
  next
    case None
    show ?thesis
    proof (cases "alloc_ok s")
      case False
      let ?s' = "s\<lparr>faults := tl (faults s)\<rparr>"
      have "put_entry k v s = Some (0, ?s')"
        by (simp add: put_entry_def TABLE_PUT_fail [OF ok h(1) None False])
      moreover have "safe ?s'"
        using safe_inv_faults [OF inv, of "tl (faults s)"] by (auto simp: safe_def)
      moreover have "put_frame s ?s'" by (simp add: put_frame_def)
      ultimately show ?thesis by blast
    next
      case True
      let ?s1 = "table_insert s bs h k v" and ?new = "length (entries s)"
      let ?bs' = "bs[h := bs ! h @ [?new]]"
      have tp: "HASHMAP_TABLE_PUT k v s = Some (Some ?new, ?s1)"
        by (rule TABLE_PUT_insert [OF ok h(1) None True])
      have inv1: "safe_inv ?s1 ?bs' ns (length ns)" by (rule safe_inv_insert [OF inv h(1)])
      then have ll1: "ll_ok ?s1 ns" by (simp add: safe_inv_def)
      have e1: "entry_at ?s1 ?new = Some (new_entry k v)" by (rule table_insert_new [OF ok h(2)])
      have f1: "put_frame s ?s1" by (rule table_insert_put_frame [OF ok h(2)])
      show ?thesis
      proof (cases "alloc_ok ?s1")
        case False
        let ?s' = "?s1\<lparr>faults := tl (faults ?s1)\<rparr>"
        have "put_entry k v s = Some (- 1, ?s')"
          by (simp add: put_entry_def tp LL_PUT_fail [OF False])
        moreover have "safe ?s'"
          using safe_inv_faults [OF inv1, of "tl (faults ?s1)"] by (auto simp: safe_def)
        moreover have "put_frame s ?s'" using f1 by (simp add: put_frame_def)
        ultimately show ?thesis by blast
      next
        case True
        let ?s' = "ll_append ?s1 ns ?new"
        have "put_entry k v s = Some (0, ?s')"
          by (simp add: put_entry_def tp LL_PUT_ok [OF ll1 e1 True])
        moreover have "safe_inv ?s' ?bs' (ns @ [length (nodes ?s1)]) (Suc (length ns))"
        proof (rule safe_inv_append [OF inv1])
          show "entry_at ?s1 ?new \<noteq> None" using e1 by simp
          show "\<forall>n\<in>set ns. node_entry ?s1 n \<noteq> Some ?new"
          proof
            fix n assume "n \<in> set ns"
            with live obtain a where a: "node_entry s n = Some a" "entry_at s a \<noteq> None" by blast
            have "node_entry ?s1 n = node_entry s n"
              by (simp add: node_entry_def node_at_def)
            with a entry_live_less [OF a(2)] show "node_entry ?s1 n \<noteq> Some ?new" by simp
          qed
        qed
        then have "safe ?s'" unfolding safe_def
          by (intro exI [of _ ?bs'] exI [of _ "ns @ [length (nodes ?s1)]"]) simp
        moreover have "put_frame s ?s'" using f1 by (simp add: put_frame_def)
        ultimately show ?thesis by blast
      qed
    qed
  qed
qed

lemma unat_double:
  fixes ts :: size_t
  assumes "unat ts * 8 < 2 ^ 64"
  shows "unat (ts * 2) = 2 * unat ts"
proof -
  have "unat ts * 2 < 2 ^ 64" using assms by simp
  then show ?thesis by (simp add: unat_word_ariths mult.commute)
qed

lemma safe_inv_new_table:
  assumes inv: "safe_inv s bs ns (length ns)"
    and fit: "unat (table_size s * 2) * 8 < 2 ^ 64"
  shows "safe_inv
     (s\<lparr>faults := f, tables := tables s @ [Some (replicate (unat (table_size s * 2)) None)],
        table_size := table_size s * 2, entry_table := Some (length (tables s))\<rparr>)
     (replicate (unat (table_size s * 2)) []) ns 0"
proof -
  let ?n = "unat (table_size s * 2)"
  let ?s2 = "s\<lparr>faults := f, tables := tables s @ [Some (replicate ?n None)],
        table_size := table_size s * 2, entry_table := Some (length (tables s))\<rparr>"
  from inv have ok: "table_ok s bs" and ll: "ll_ok s ns"
    and live: "\<forall>n\<in>set ns. \<exists>a. node_entry s n = Some a \<and> entry_at s a \<noteq> None"
    and dist: "distinct (map (node_entry s) ns)"
    by (auto simp: safe_inv_def)
  from ok have ts: "table_size s \<noteq> 0" "unat (table_size s) * 8 < 2 ^ 64" "hash_ok (hash_func s)"
    by (auto simp: table_ok_def)
  have "unat (table_size s) \<noteq> 0" using ts(1) by (simp add: unat_eq_0)
  with unat_double [OF ts(2)] have nz: "table_size s * 2 \<noteq> 0"
    by (metis mult_is_0 unat_0 zero_neq_numeral)
  have "table_ok ?s2 (replicate ?n [])"
    unfolding table_ok_def
    apply (intro exI [of _ "length (tables s)"] exI [of _ "replicate ?n None"])
    using nz fit ts(3) by (simp add: table_at_def)
  moreover have "ll_ok ?s2 ns" using ll by (simp add: ll_ok_def)
  ultimately show ?thesis using live dist by (simp add: safe_inv_def)
qed

lemma INCREASE_SIZE_fail:
  "\<not> (alloc_ok s \<and> unat (table_size s * 2) * 8 < 2 ^ 64) \<Longrightarrow>
   HASHMAP_INCREASE_SIZE s = Some (- 1, s\<lparr>faults := tl (faults s)\<rparr>)"
  by (auto simp: HASHMAP_INCREASE_SIZE_def calloc_table_def next_fault_eq Let_def)

lemma INCREASE_SIZE_safe:
  assumes "safe s" and al: "alloc_ok s" and fit: "unat (table_size s * 2) * 8 < 2 ^ 64"
  shows "\<exists>r s' t. HASHMAP_INCREASE_SIZE s = Some (r, s') \<and> safe s' \<and>
     num_entries s' = num_entries s \<and> hash_func s' = hash_func s \<and> (r = 0 \<or> r = - 1) \<and>
     key_kind s' = key_kind s \<and>
     table_size s' = table_size s * 2 \<and> entry_table s' = Some (length (tables s)) \<and>
     entry_table s = Some t \<and> table_at s t \<noteq> None \<and> table_at s' t = None"
proof -
  from assms(1) obtain bs ns where inv: "safe_inv s bs ns (length ns)" by (auto simp: safe_def)
  let ?n = "unat (table_size s * 2)"
  let ?s2 = "s\<lparr>faults := tl (faults s), tables := tables s @ [Some (replicate ?n None)],
        table_size := table_size s * 2, entry_table := Some (length (tables s))\<rparr>"
  from inv have ok: "table_ok s bs" and ll: "ll_ok s ns" by (auto simp: safe_inv_def)
  from ok obtain t0 cells0 where t0: "entry_table s = Some t0" "table_at s t0 = Some cells0"
    by (auto simp: table_ok_def)
  then have t0l: "t0 < length (tables s)" by (auto simp: table_at_def split: if_splits)
  have inv2: "safe_inv ?s2 (replicate ?n []) ns 0" by (rule safe_inv_new_table [OF inv fit])
  have cur: "entry_ll_head ?s2 = (if 0 < length ns then Some (ns ! 0) else None)"
    using ll path_hd [of "nx_node s" "entry_ll_head s" ns] by (auto simp: ll_ok_def hd_conv_nth)
  from rehash_loop_safe [OF inv2 _ cur] obtain r s3 bs' where
    r: "rehash_loop ?s2 (entry_ll_head ?s2) = Some (r, s3)" "safe_inv s3 bs' ns (length ns)"
      "rehash_frame ?s2 s3" "r = 0 \<or> r = - 1" by auto
  from r(3) have f3: "key_kind s3 = key_kind s"
    "table_size s3 = table_size s * 2" "num_entries s3 = num_entries s"
    "entry_table s3 = Some (length (tables s))" "hash_func s3 = hash_func s"
    "length (tables s3) = Suc (length (tables s))"
    "\<forall>t. t \<noteq> length (tables s) \<longrightarrow> table_at s3 t = table_at ?s2 t"
    by (simp_all add: rehash_frame_def)
  have "table_at ?s2 t0 = Some cells0" using t0 t0l by (simp add: table_at_def nth_append)
  with f3(7) t0l have t3: "table_at s3 t0 = Some cells0" by simp
  let ?s4 = "s3\<lparr>tables := (tables s3)[t0 := None]\<rparr>"
  have fr: "free_table (entry_table s) s3 = Some ?s4" using t0 t3 by (simp add: free_table_def)
  have "HASHMAP_INCREASE_SIZE s = Some (r, ?s4)"
    using al fit r(1) fr t0
    by (simp add: HASHMAP_INCREASE_SIZE_def calloc_table_def next_fault_eq Let_def
        HASHMAP_REHASH_TABLE_def)
  moreover have "safe_inv ?s4 bs' ns (length ns)"
    using r(2)
  proof (rule safe_inv_cong)
    show "table_at ?s4 (the (entry_table s3)) = table_at s3 (the (entry_table s3))"
      using f3 t0l by (simp add: table_at_def)
  qed simp_all
  then have "safe ?s4" by (auto simp: safe_def)
  moreover have "table_at ?s4 t0 = None" using t0l f3(6) by (simp add: table_at_def)
  ultimately show ?thesis using f3 r(4) t0 by auto
qed

lemma safe_num_entries:
  assumes "safe s"
  shows "safe (s\<lparr>num_entries := n\<rparr>)"
proof -
  from assms obtain bs ns where "safe_inv s bs ns (length ns)" by (auto simp: safe_def)
  then have "safe_inv (s\<lparr>num_entries := n\<rparr>) bs ns (length ns)"
    by (rule safe_inv_cong) simp_all
  then show ?thesis by (auto simp: safe_def)
qed

lemma safe_faults:
  assumes "safe s"
  shows "safe (s\<lparr>faults := f\<rparr>)"
  using assms safe_inv_faults unfolding safe_def by blast

lemma PUT_safe:
  assumes "safe s"
  shows "\<exists>r s'. HASHMAP_PUT k v s = Some (r, s') \<and> safe s' \<and>
     num_entries s' = num_entries s + 1 \<and> hash_func s' = hash_func s \<and> (r = 0 \<or> r = - 1) \<and>
     key_kind s' = key_kind s \<and>
     (if grows s then table_size s' = table_size s * 2 \<and> entry_table s' = Some (length (tables s))
      else table_size s' = table_size s \<and> entry_table s' = entry_table s)"
proof (cases "load_factor_reached s")
  case False
  from assms obtain bs ns where inv: "safe_inv s bs ns (length ns)" by (auto simp: safe_def)
  from put_entry_safe [OF inv, of k v] obtain r s1 where
    r: "put_entry k v s = Some (r, s1)" "safe s1" "put_frame s s1" "r = 0 \<or> r = - 1" by blast
  have "HASHMAP_PUT k v s = Some (r, s1\<lparr>num_entries := num_entries s1 + 1\<rparr>)"
    using False r(1) by (simp add: HASHMAP_PUT_def)
  moreover have "safe (s1\<lparr>num_entries := num_entries s1 + 1\<rparr>)"
    by (rule safe_num_entries [OF r(2)])
  ultimately show ?thesis using r(3,4) False by (auto simp: put_frame_def grows_def)
next
  case True
  show ?thesis
  proof (cases "alloc_ok s \<and> unat (table_size s * 2) * 8 < 2 ^ 64")
    case False
    have "HASHMAP_PUT k v s =
        Some (- 1, s\<lparr>faults := tl (faults s), num_entries := num_entries s + 1\<rparr>)"
      using True INCREASE_SIZE_fail [OF False] by (simp add: HASHMAP_PUT_def)
    moreover have "safe (s\<lparr>faults := tl (faults s), num_entries := num_entries s + 1\<rparr>)"
      by (intro safe_num_entries safe_faults assms)
    ultimately show ?thesis using False by (auto simp: grows_def)
  next
    case fit: True
    then have g: "grows s" using True by (simp add: grows_def)
    from INCREASE_SIZE_safe [OF assms] fit obtain r s1 where
      i: "HASHMAP_INCREASE_SIZE s = Some (r, s1)" "safe s1" "num_entries s1 = num_entries s"
        "hash_func s1 = hash_func s" "r = 0 \<or> r = - 1" "table_size s1 = table_size s * 2"
        "entry_table s1 = Some (length (tables s))" "key_kind s1 = key_kind s" by blast
    show ?thesis
    proof (cases "r = 0")
      case False
      have "HASHMAP_PUT k v s = Some (- 1, s1\<lparr>num_entries := num_entries s1 + 1\<rparr>)"
        using True i(1) False by (simp add: HASHMAP_PUT_def)
      moreover have "safe (s1\<lparr>num_entries := num_entries s1 + 1\<rparr>)"
        by (rule safe_num_entries [OF i(2)])
      ultimately show ?thesis using i g by auto
    next
      case r0: True
      from i(2) obtain bs ns where inv: "safe_inv s1 bs ns (length ns)" by (auto simp: safe_def)
      from put_entry_safe [OF inv, of k v] obtain r' s2 where
        r: "put_entry k v s1 = Some (r', s2)" "safe s2" "put_frame s1 s2" "r' = 0 \<or> r' = - 1"
        by blast
      have "HASHMAP_PUT k v s = Some (r', s2\<lparr>num_entries := num_entries s2 + 1\<rparr>)"
        using True i(1) r0 r(1) by (simp add: HASHMAP_PUT_def)
      moreover have "safe (s2\<lparr>num_entries := num_entries s2 + 1\<rparr>)"
        by (rule safe_num_entries [OF r(2)])
      ultimately show ?thesis using i g r(3,4) by (auto simp: put_frame_def)
    qed
  qed
qed

lemma GET_safe:
  assumes "safe s"
  shows "\<exists>b r'. HASHMAP_GET result s k = Some (b, r') \<and> (\<not> b \<longrightarrow> r' = result)"
proof -
  from assms obtain bs ns where inv: "safe_inv s bs ns (length ns)" by (auto simp: safe_def)
  then have ok: "table_ok s bs" by (simp add: safe_inv_def)
  from bucket_of_less [OF ok, of k] obtain hv where
    hv: "hash_func s (table_size s) k = Some hv" "unat hv < length bs" by auto
  from table_ok_chain [OF ok hv(2)] obtain t cells where
    t: "entry_table s = Some t" "table_at s t = Some cells" "unat hv < length cells"
      "path (nx_entry s) (cells ! unat hv) (bs ! unat hv)" by blast
  show ?thesis
    using hv t get_loop_chain [OF t(4), of k]
    by (auto simp: HASHMAP_GET_def split: option.splits)
qed

lemma run_safe:
  "safe s \<Longrightarrow> \<exists>s'. run ops s = Some s' \<and> safe s' \<and> hash_func s' = hash_func s \<and>
     key_kind s' = key_kind s"
proof (induction ops arbitrary: s)
  case Nil
  then show ?case by simp
next
  case (Cons x ops)
  show ?case
  proof (cases x)
    case (Put k v)
    from PUT_safe [OF Cons.prems, of k v] obtain r s1 where
      p: "HASHMAP_PUT k v s = Some (r, s1)" "safe s1" "hash_func s1 = hash_func s"
        "key_kind s1 = key_kind s" by blast
    from Cons.IH [OF p(2)] p Put show ?thesis by auto
  next
    case (Get r k)
    from GET_safe [OF Cons.prems, of r k] Cons.IH [OF Cons.prems] Get show ?thesis by auto
  qed
qed

lemma run_num_entries:
  "safe s \<Longrightarrow> run ops s = Some s' \<Longrightarrow>
   num_entries s' = num_entries s + of_nat (length (filter is_put ops))"
proof (induction ops arbitrary: s)
  case Nil
  then show ?case by simp
next
  case (Cons x ops)
  show ?case
  proof (cases x)
    case (Put k v)
    from PUT_safe [OF Cons.prems(1), of k v] obtain r s1 where
      p: "HASHMAP_PUT k v s = Some (r, s1)" "safe s1" "num_entries s1 = num_entries s + 1"
      by blast
    from Cons.prems(2) Put p(1) have "run ops s1 = Some s'" by simp
    from Cons.IH [OF p(2) this] p(3) Put show ?thesis by simp
  next
    case (Get r k)
    from GET_safe [OF Cons.prems(1), of r k] Cons.prems(2) Get have "run ops s = Some s'"
      by auto
    from Cons.IH [OF Cons.prems(1) this] Get show ?thesis by simp
  qed
qed

lemma alloc_ok_frame [simp]:
  "alloc_ok (s\<lparr>entries := es\<rparr>) = alloc_ok s"
  "alloc_ok (s\<lparr>nodes := ns\<rparr>) = alloc_ok s"
  "alloc_ok (s\<lparr>tables := ts\<rparr>) = alloc_ok s"
  "alloc_ok (s\<lparr>table_size := n\<rparr>) = alloc_ok s"
  "alloc_ok (s\<lparr>num_entries := n\<rparr>) = alloc_ok s"
  "alloc_ok (s\<lparr>entry_ll_head := p\<rparr>) = alloc_ok s"
  "alloc_ok (s\<lparr>entry_ll_tail := p\<rparr>) = alloc_ok s"
  "alloc_ok (s\<lparr>entry_table := p\<rparr>) = alloc_ok s"
  "alloc_ok (s\<lparr>hash_func := hf\<rparr>) = alloc_ok s"
  by (simp_all add: alloc_ok_def)

lemma hash_long_long_range:
  "ts \<noteq> 0 \<Longrightarrow> \<exists>h. hash_long_long ts k = Some h \<and> h = k mod ts \<and> h < ts"
  by (simp add: hash_long_long_def word_mod_less_divisor word_neq_0_conv)

lemma hash_ok_long_long: "hash_ok hash_long_long"
  unfolding hash_ok_def using hash_long_long_range by blast

lemma hash_ok_double: "hash_ok hash_double"
  unfolding hash_ok_def
  by (simp add: hash_double_def word_mod_less_divisor word_neq_0_conv)

lemma hash_ok_ptr: "hash_ok hash_ptr"
  unfolding hash_ok_def
proof (intro allI impI)
  fix ts k :: size_t
  assume a: "ts \<noteq> 0 \<and> unat ts * 8 < 2 ^ 64"
  then have "unat ts \<noteq> 0" by (simp add: unat_eq_0)
  with unat_double [of ts] a have "ts * 2 \<noteq> 0" by (metis mult_is_0 unat_0 zero_neq_numeral)
  with a show "\<exists>h. hash_ptr ts k = Some h \<and> h < ts"
    by (simp add: hash_ptr_def word_mod_less_divisor word_neq_0_conv)
qed

lemma INIT_result:
  "HASHMAP_INIT m =
     (if alloc_ok m then 0 else - 1,
      m\<lparr>table_size := 15, num_entries := 0, entry_ll_head := None, entry_ll_tail := None,
        hash_func := (case key_kind m of Integer \<Rightarrow> hash_long_long | Floating_point \<Rightarrow> hash_double
                      | Other \<Rightarrow> hash_ptr),
        faults := tl (faults m),
        tables := (if alloc_ok m then tables m @ [Some (replicate 15 None)] else tables m),
        entry_table := (if alloc_ok m then Some (length (tables m)) else None)\<rparr>)"
  by (simp add: HASHMAP_INIT_def calloc_table_def next_fault_eq Let_def)

lemma INIT_safe:
  assumes "fst (HASHMAP_INIT m) = 0"
  shows "safe (snd (HASHMAP_INIT m))"
proof -
  from assms have al: "alloc_ok m" by (simp add: INIT_result split: if_splits)
  let ?s = "snd (HASHMAP_INIT m)"
  have h: "hash_ok (hash_func ?s)"
    by (cases "key_kind m") (simp_all add: INIT_result hash_ok_long_long hash_ok_double hash_ok_ptr)
  have "table_ok ?s (replicate 15 [])"
    unfolding table_ok_def
    apply (intro exI [of _ "length (tables m)"] exI [of _ "replicate 15 None"])
    using al h by (simp add: INIT_result table_at_def)
  moreover have "ll_ok ?s []" by (simp add: ll_ok_def INIT_result)
  ultimately have "safe_inv ?s (replicate 15 []) [] (length ([] :: addr list))"
    by (simp add: safe_inv_def)
  then show ?thesis unfolding safe_def by blast
qed

text \<open>
  Claim C9 says that the hash of an integral key is the signed remainder of the key by the
  capacity, taken as it is, so that some negative key gets an index below 0 or outside
  the table. The code does not do that: \<^verbatim>\<open>val % table_size\<close> has a \<^verbatim>\<open>long long\<close> and a
  \<^verbatim>\<open>size_t\<close> operand, both 64 bits wide, so C converts the key to the unsigned type
  first and the remainder is the unsigned one. Claim C9 as amended: for an integral key
  the bucket index is the unsigned remainder of the key's 64-bit representation by the
  capacity, and for every key, the negative ones included, and every capacity other than
  0 it lies in the table, from 0 up to the capacity excluded.
\<close>

theorem hash_long_long_unsigned_remainder:
  "ts \<noteq> 0 \<Longrightarrow> \<exists>h. hash_long_long ts k = Some h \<and> h = k mod ts \<and> h < ts"
  by (rule hash_long_long_range)

theorem hash_long_long_unsigned_remainder_witness:
  "(15 :: size_t) \<noteq> 0 \<and> sint (- 1 :: key) < 0 \<and>
   (\<exists>h. hash_long_long 15 (- 1) = Some h \<and> h = (- 1) mod 15 \<and> h < 15)"
  using hash_long_long_unsigned_remainder [of 15 "- 1"] by simp

text \<open>
  Against claim C9 as stated: the key -1 with capacity 15 has the signed remainder -1,
  and the code returns the index 0; and no negative key has an index outside the table.
\<close>

theorem hash_long_long_not_signed_remainder:
  "sint (- 1 :: key) = - 1 \<and> (- 1 :: int) smod 15 = - 1 \<and> hash_long_long 15 (- 1) = Some 0 \<and>
   \<not> (\<exists>k ts. ts \<noteq> 0 \<and> sint k < 0 \<and> (\<exists>h. hash_long_long ts k = Some h \<and> \<not> h < ts))"
proof -
  have "\<not> (\<exists>k ts. ts \<noteq> 0 \<and> sint k < 0 \<and> (\<exists>h. hash_long_long ts k = Some h \<and> \<not> h < ts))"
    using hash_long_long_range by fastforce
  moreover have "hash_long_long 15 (- 1) = Some 0" by (simp add: hash_long_long_def)
  moreover have "(- 1 :: int) smod 15 = - 1" by (simp add: signed_modulo_int_def)
  ultimately show ?thesis by simp
qed

text \<open>
  Claim C8: every call of \<^verbatim>\<open>HASHMAP_PUT\<close> adds exactly one to \<^verbatim>\<open>_num_entries\<close> (a
  \<^verbatim>\<open>size_t\<close>, so the addition is modulo \<open>2 ^ 64\<close>), whether the call replaced the value
  of a key that was there, inserted a new entry, or failed. The state is any state that
  an initialised hashmap reaches by a sequence of put and get calls under any outcomes
  of the allocations; the call itself returns.
\<close>

theorem put_increments_num_entries:
  "fst (HASHMAP_INIT m) = 0 \<Longrightarrow>
   \<exists>s. run ops (snd (HASHMAP_INIT m)) = Some s \<and>
     (\<exists>r s'. HASHMAP_PUT k v s = Some (r, s') \<and> num_entries s' = num_entries s + 1)"
proof -
  assume "fst (HASHMAP_INIT m) = 0"
  then have "safe (snd (HASHMAP_INIT m))" by (rule INIT_safe)
  from run_safe [OF this, of ops] obtain s where
    s: "run ops (snd (HASHMAP_INIT m)) = Some s" "safe s" by blast
  from PUT_safe [OF s(2), of k v] s(1) show ?thesis by blast
qed

theorem put_increments_num_entries_witness:
  "fst (HASHMAP_INIT (memory Integer [True, True, False])) = 0 \<and>
   (\<exists>s. run [Put 1 (10 :: int), Put 1 11, Put 2 20, Get 0 1]
          (snd (HASHMAP_INIT (memory Integer [True, True, False]))) = Some s \<and>
     (\<exists>r s'. HASHMAP_PUT 3 30 s = Some (r, s') \<and> num_entries s' = num_entries s + 1))"
  using put_increments_num_entries [of "memory Integer [True, True, False]"
      "[Put 1 (10 :: int), Put 1 11, Put 2 20, Get 0 1]" 3 30]
  by (simp add: INIT_result memory_def alloc_ok_def)







lemmas run_simps =
  memory_def INIT_result alloc_ok_def HASHMAP_PUT_def put_entry_def HASHMAP_TABLE_PUT_def
  HASHMAP_FIND_ENTRY_RECORD_def find_entry_loop.simps chain_end_loop.simps rehash_loop.simps
  get_loop.simps HASHMAP_GET_def HASHMAP_INCREASE_SIZE_def HASHMAP_REHASH_TABLE_def
  HASHMAP_LL_PUT_def HASHMAP_LL_ADD_TAIL_def HASHMAP_LL_ADD_HEAD_def HASHMAP_LL_ADD_AFTER_def
  HASHMAP_LL_ADD_BEFORE_def calloc_table_def calloc_entry_def calloc_node_def next_fault_def
  write_entry_def write_node_def write_cell_def free_entry_def free_table_def
  entry_at_def node_at_def table_at_def load_factor_reached_def double_of_size_t_small
  hash_long_long_def
  key_equal_def
  chain_walk.simps ll_walk.simps table_walk_def entry_ll_traverse_def

lemma safe_table:
  assumes "safe s"
  shows "table_size s \<noteq> 0 \<and> unat (table_size s) * 8 < 2 ^ 64 \<and>
     (\<exists>t. entry_table s = Some t \<and> t < length (tables s) \<and> table_at s t \<noteq> None)"
proof -
  from assms obtain bs ns where "safe_inv s bs ns (length ns)" by (auto simp: safe_def)
  then have "table_ok s bs" by (simp add: safe_inv_def)
  then show ?thesis unfolding table_ok_def by (auto simp: table_at_def split: if_splits)
qed

lemma PUT_growth_fail:
  assumes "load_factor_reached s" "\<not> (alloc_ok s \<and> unat (table_size s * 2) * 8 < 2 ^ 64)"
  shows "HASHMAP_PUT k v s =
     Some (- 1, s\<lparr>faults := tl (faults s), num_entries := num_entries s + 1\<rparr>)"
  using assms(1) INCREASE_SIZE_fail [OF assms(2)] by (simp add: HASHMAP_PUT_def)













lemma replicate_12: "replicate 12 x = [x, x, x, x, x, x, x, x, x, x, x, x]"
  by (simp add: eval_nat_numeral)

text \<open>
  Claim C5: a put grows the table exactly when the load factor
  \<^verbatim>\<open>(double) _num_entries / _table_size\<close>, computed at the start of the put, is at least
  0.75, and a growth doubles the capacity exactly. The state \<open>s\<close> is any state that an
  initialised hashmap reaches by put and get calls under any outcomes of the
  allocations; its entry count is the number of put calls made. The load factor is the
  one the code computes, in double arithmetic; for an entry count and a capacity below
  \<open>2 ^ 52\<close> the test is the test of the exact quotient against 0.75. With the load
  factor at 0.75 or more the put asks for a table of twice the size: when that
  allocation succeeds a new table is installed and the capacity is twice the old one
  (as a number, without wrap-around); when it fails the put returns -1 having done
  nothing else. Below 0.75 the table and its capacity are the ones before the call.
\<close>

theorem put_grows_at_load_factor:
  "fst (HASHMAP_INIT m) = 0 \<Longrightarrow>
   \<exists>s. run ops (snd (HASHMAP_INIT m)) = Some s \<and> table_size s \<noteq> 0 \<and>
     num_entries s = of_nat (length (filter is_put ops)) \<and>
     (unat (num_entries s) < 2 ^ 52 \<and> unat (table_size s) < 2 ^ 52 \<longrightarrow>
        load_factor_reached s =
          (3 / 4 \<le> real (unat (num_entries s)) / real (unat (table_size s)))) \<and>
     (\<exists>r s'. HASHMAP_PUT k v s = Some (r, s') \<and>
        (if load_factor_reached s
         then (if alloc_ok s \<and> 2 * unat (table_size s) * 8 < 2 ^ 64
               then entry_table s' \<noteq> entry_table s \<and>
                    unat (table_size s') = 2 * unat (table_size s)
               else r = - 1 \<and>
                    s' = s\<lparr>faults := tl (faults s), num_entries := num_entries s + 1\<rparr>)
         else entry_table s' = entry_table s \<and> table_size s' = table_size s))"
proof -
  assume "fst (HASHMAP_INIT m) = 0"
  then have s0: "safe (snd (HASHMAP_INIT m))" by (rule INIT_safe)
  from run_safe [OF this, of ops] obtain s where
    s: "run ops (snd (HASHMAP_INIT m)) = Some s" "safe s" by blast
  from run_num_entries [OF s0 s(1)]
  have n: "num_entries s = of_nat (length (filter is_put ops))" by (simp add: INIT_result)
  from safe_table [OF s(2)] obtain t where
    t: "table_size s \<noteq> 0" "unat (table_size s) * 8 < 2 ^ 64" "entry_table s = Some t"
      "t < length (tables s)" by blast
  have ex: "unat (num_entries s) < 2 ^ 52 \<and> unat (table_size s) < 2 ^ 52 \<longrightarrow>
      load_factor_reached s =
        (3 / 4 \<le> real (unat (num_entries s)) / real (unat (table_size s)))"
  proof
    assume b: "unat (num_entries s) < 2 ^ 52 \<and> unat (table_size s) < 2 ^ 52"
    have "unat (table_size s) \<noteq> 0" using t(1) by (simp add: unat_eq_0)
    then have "0 < unat (table_size s)" by simp
    then have p: "0 < real (unat (table_size s))" by (simp only: of_nat_0_less_iff)
    have "(3 / 4 \<le> real (unat (num_entries s)) / real (unat (table_size s))) \<longleftrightarrow>
        3 * real (unat (table_size s)) \<le> 4 * real (unat (num_entries s))"
      using p by (simp add: field_simps)
    also have "\<dots> \<longleftrightarrow> real (3 * unat (table_size s)) \<le> real (4 * unat (num_entries s))"
      by simp
    also have "\<dots> \<longleftrightarrow> 3 * unat (table_size s) \<le> 4 * unat (num_entries s)"
      by (rule of_nat_le_iff)
    finally show "load_factor_reached s =
        (3 / 4 \<le> real (unat (num_entries s)) / real (unat (table_size s)))"
      using load_factor_exact [OF t(1)] b by simp
  qed
  have fit: "unat (table_size s * 2) * 8 < 2 ^ 64 \<longleftrightarrow> 2 * unat (table_size s) * 8 < 2 ^ 64"
    by (simp add: unat_double [OF t(2)])
  from PUT_safe [OF s(2), of k v] obtain r s' where
    p: "HASHMAP_PUT k v s = Some (r, s')"
      "if grows s then table_size s' = table_size s * 2 \<and> entry_table s' = Some (length (tables s))
       else table_size s' = table_size s \<and> entry_table s' = entry_table s" by blast
  have "\<exists>r s'. HASHMAP_PUT k v s = Some (r, s') \<and>
        (if load_factor_reached s
         then (if alloc_ok s \<and> 2 * unat (table_size s) * 8 < 2 ^ 64
               then entry_table s' \<noteq> entry_table s \<and>
                    unat (table_size s') = 2 * unat (table_size s)
               else r = - 1 \<and>
                    s' = s\<lparr>faults := tl (faults s), num_entries := num_entries s + 1\<rparr>)
         else entry_table s' = entry_table s \<and> table_size s' = table_size s)"
  proof (cases "load_factor_reached s")
    case False
    with p show ?thesis by (auto simp: grows_def)
  next
    case True
    show ?thesis
    proof (cases "alloc_ok s \<and> unat (table_size s * 2) * 8 < 2 ^ 64")
      case False
      from PUT_growth_fail [OF True False, of k v] True False fit
      show ?thesis by auto
    next
      case fits: True
      with True have "grows s" by (simp add: grows_def)
      with p have "table_size s' = table_size s * 2" "entry_table s' = Some (length (tables s))"
        by simp_all
      with t have "entry_table s' \<noteq> entry_table s" "unat (table_size s') = 2 * unat (table_size s)"
        by (simp_all add: unat_double)
      with p(1) True fits fit show ?thesis by auto
    qed
  qed
  with s(1) t(1) n ex show ?thesis by blast
qed

theorem put_grows_at_load_factor_witness:
  "fst (HASHMAP_INIT (memory Integer [])) = 0 \<and>
   (\<exists>s. run (replicate 12 (Put 1 (10 :: int))) (snd (HASHMAP_INIT (memory Integer []))) = Some s \<and>
     table_size s \<noteq> 0 \<and>
     num_entries s = of_nat (length (filter is_put (replicate 12 (Put 1 (10 :: int))))) \<and>
     (unat (num_entries s) < 2 ^ 52 \<and> unat (table_size s) < 2 ^ 52 \<longrightarrow>
        load_factor_reached s =
          (3 / 4 \<le> real (unat (num_entries s)) / real (unat (table_size s)))) \<and>
     (\<exists>r s'. HASHMAP_PUT 1 20 s = Some (r, s') \<and>
        (if load_factor_reached s
         then (if alloc_ok s \<and> 2 * unat (table_size s) * 8 < 2 ^ 64
               then entry_table s' \<noteq> entry_table s \<and>
                    unat (table_size s') = 2 * unat (table_size s)
               else r = - 1 \<and>
                    s' = s\<lparr>faults := tl (faults s), num_entries := num_entries s + 1\<rparr>)
         else entry_table s' = entry_table s \<and> table_size s' = table_size s))) \<and>
   (\<exists>s s'. run (replicate 12 (Put 1 (10 :: int))) (snd (HASHMAP_INIT (memory Integer []))) = Some s \<and>
     num_entries s = 12 \<and> table_size s = 15 \<and> load_factor_reached s \<and>
     HASHMAP_PUT 1 20 s = Some (0, s') \<and> table_size s' = 30 \<and>
     entry_table s = Some 0 \<and> entry_table s' = Some 1 \<and>
     table_at s' 0 = None \<and> map_option length (table_at s' 1) = Some 30)"
proof -
  have h: "fst (HASHMAP_INIT (memory Integer [])) = 0"
    by (simp add: INIT_result memory_def alloc_ok_def)
  have c: "\<exists>s s'. run (replicate 12 (Put 1 (10 :: int))) (snd (HASHMAP_INIT (memory Integer []))) = Some s \<and>
     num_entries s = 12 \<and> table_size s = 15 \<and> load_factor_reached s \<and>
     HASHMAP_PUT 1 20 s = Some (0, s') \<and> table_size s' = 30 \<and>
     entry_table s = Some 0 \<and> entry_table s' = Some 1 \<and>
     table_at s' 0 = None \<and> map_option length (table_at s' 1) = Some 30"
    by (simp add: run_simps replicate_12)
  from h put_grows_at_load_factor [OF h, of "replicate 12 (Put 1 (10 :: int))" 1 20] c
  show ?thesis by (intro conjI)
qed



text \<open>
  Claim C2 says that during growth the old bucket table is freed only after the rehash
  loop has completed with success, and is not freed when a re-insertion fails. The code
  frees it after the loop in both cases: \<^verbatim>\<open>free(_old_table)\<close> follows the call of
  \<^verbatim>\<open>_HASHMAP_REHASH_TABLE\<close> without a test of its result. Claim C2 as amended: when the
  new table has been allocated, \<^verbatim>\<open>_HASHMAP_INCREASE_SIZE\<close> frees the old table after
  the rehash loop has ended, whether the loop completed (result 0) or stopped at a
  failed re-insertion (result -1), and the new table is the table of the hashmap; when
  the new table cannot be allocated, nothing is freed and nothing changes but the
  allocator. The state is any state that an initialised hashmap reaches by put and get
  calls under any outcomes of the allocations.
\<close>

theorem increase_size_frees_old_table:
  "fst (HASHMAP_INIT m) = 0 \<Longrightarrow>
   \<exists>s t. run ops (snd (HASHMAP_INIT m)) = Some s \<and> entry_table s = Some t \<and>
     table_at s t \<noteq> None \<and>
     (\<exists>r s'. HASHMAP_INCREASE_SIZE s = Some (r, s') \<and>
        (if alloc_ok s \<and> 2 * unat (table_size s) * 8 < 2 ^ 64
         then (r = 0 \<or> r = - 1) \<and> table_at s' t = None \<and>
              entry_table s' = Some (length (tables s)) \<and> table_at s' (length (tables s)) \<noteq> None
         else r = - 1 \<and> s' = s\<lparr>faults := tl (faults s)\<rparr>))"
proof -
  assume "fst (HASHMAP_INIT m) = 0"
  then have "safe (snd (HASHMAP_INIT m))" by (rule INIT_safe)
  from run_safe [OF this, of ops] obtain s where
    s: "run ops (snd (HASHMAP_INIT m)) = Some s" "safe s" by blast
  from safe_table [OF s(2)] obtain t where
    t: "table_size s \<noteq> 0" "unat (table_size s) * 8 < 2 ^ 64" "entry_table s = Some t"
      "t < length (tables s)" "table_at s t \<noteq> None" by blast
  have fit: "unat (table_size s * 2) * 8 < 2 ^ 64 \<longleftrightarrow> 2 * unat (table_size s) * 8 < 2 ^ 64"
    by (simp add: unat_double [OF t(2)])
  show ?thesis
  proof (cases "alloc_ok s \<and> unat (table_size s * 2) * 8 < 2 ^ 64")
    case False
    from INCREASE_SIZE_fail [OF False] False fit s(1) t show ?thesis by auto
  next
    case True
    from INCREASE_SIZE_safe [OF s(2)] True t(3) obtain r s' where
      i: "HASHMAP_INCREASE_SIZE s = Some (r, s')" "safe s'" "r = 0 \<or> r = - 1"
        "entry_table s' = Some (length (tables s))" "table_at s' t = None" by auto
    from safe_table [OF i(2)] i(4) have "table_at s' (length (tables s)) \<noteq> None" by auto
    with i True fit s(1) t show ?thesis by auto
  qed
qed

theorem increase_size_frees_old_table_witness:
  "fst (HASHMAP_INIT (memory Integer [])) = 0 \<and>
   (\<exists>s t. run [Put 1 (10 :: int), Put 2 20] (snd (HASHMAP_INIT (memory Integer []))) = Some s \<and>
     entry_table s = Some t \<and> table_at s t \<noteq> None \<and>
     (\<exists>r s'. HASHMAP_INCREASE_SIZE s = Some (r, s') \<and>
        (if alloc_ok s \<and> 2 * unat (table_size s) * 8 < 2 ^ 64
         then (r = 0 \<or> r = - 1) \<and> table_at s' t = None \<and>
              entry_table s' = Some (length (tables s)) \<and> table_at s' (length (tables s)) \<noteq> None
         else r = - 1 \<and> s' = s\<lparr>faults := tl (faults s)\<rparr>)))"
proof -
  have h: "fst (HASHMAP_INIT (memory Integer [])) = 0"
    by (simp add: INIT_result memory_def alloc_ok_def)
  from h increase_size_frees_old_table [OF h, of "[Put 1 (10 :: int), Put 2 20]"]
  show ?thesis by (rule conjI)
qed

text \<open>
  Against claim C2 as stated: a hashmap holding the key 1, grown while the allocator grants
  the new table and refuses the entry the rehash asks for. The rehash loop stops at its
  first re-insertion, \<^verbatim>\<open>_HASHMAP_INCREASE_SIZE\<close> returns -1, and the old table (address 0)
  has been freed all the same; the hashmap is left with the new, empty table (address 1).
\<close>

theorem increase_size_frees_old_table_after_failed_rehash:
  "map_option
     (\<lambda>s. (entry_table s, table_at s 0 \<noteq> None, faults s,
          map_option (\<lambda>(r, s'). (r, entry_table s', table_at s' 0, table_at s' 1 \<noteq> None))
            (HASHMAP_INCREASE_SIZE s)))
     (run [Put 1 (10 :: int)] (snd (HASHMAP_INIT (memory Integer [True, True, True, True, False]))))
   = Some (Some 0, True, [True, False], Some (- 1, Some 1, None, True))"
  by (simp add: run_simps)

lemma replicate_15: "replicate 15 x = [x, x, x, x, x, x, x, x, x, x, x, x, x, x, x]"
  by (simp add: eval_nat_numeral)

text \<open>
  Claim C7, at its failing inputs. The claim: when the allocation of the entry or of the
  list node fails during an insertion, the put reports failure and leaves the bucket
  table, the entry-order list and the entry count as they were. The code, on an empty
  hashmap and the call \<^verbatim>\<open>HASHMAP_PUT(m, 1, 10)\<close>: when the allocation of the entry fails
  (the first run below), the put returns 0, not -1, and the entry count is 1; when the
  allocation of the list node fails (the second run), the put returns -1, but the entry
  is in the bucket table (a get finds it), the entry count is 1, and the entry-order
  list is empty.
\<close>

theorem put_on_allocation_failure:
  "map_option (\<lambda>(r, s'). (r, num_entries s', entries s', HASHMAP_GET 0 s' 1))
     (HASHMAP_PUT 1 (10 :: int) (snd (HASHMAP_INIT (memory Integer [True, False]))))
   = Some (0, 1, [], Some (False, 0)) \<and>
   map_option (\<lambda>(r, s'). (r, num_entries s', length (entries s'), entry_ll_traverse s',
       table_walk s', HASHMAP_GET 0 s' 1))
     (HASHMAP_PUT 1 (10 :: int) (snd (HASHMAP_INIT (memory Integer [True, True, False]))))
   = Some (- 1, 1, 1, Some [], Some [(1, 10)], Some (True, 10))"
  by (simp add: run_simps replicate_15)

text \<open>
  Claim C3, at its failing input. The claim: in every reachable state the entry count
  equals the number of nodes of the entry-order list, which equals the number of entries
  in the bucket chains. The code, after \<^verbatim>\<open>HASHMAP_PUT(m, 1, 10)\<close> and
  \<^verbatim>\<open>HASHMAP_PUT(m, 1, 20)\<close> on an empty hashmap with no allocation failing: the list has
  one node and the chains hold one entry, and \<^verbatim>\<open>_num_entries\<close> is 2.
\<close>

theorem num_entries_counts_puts:
  "map_option (\<lambda>s. (num_entries s, entry_ll_traverse s, table_walk s))
     (run [Put 1 (10 :: int), Put 1 20] (snd (HASHMAP_INIT (memory Integer []))))
   = Some (2, Some [(1, 20)], Some [(1, 20)])"
  by (simp add: run_simps replicate_15)









lemma node_kv_frame [simp]:
  "node_kv (s\<lparr>faults := f\<rparr>) = node_kv s"
  "node_kv (s\<lparr>tables := ts\<rparr>) = node_kv s"
  "node_kv (s\<lparr>table_size := n\<rparr>) = node_kv s"
  "node_kv (s\<lparr>num_entries := n\<rparr>) = node_kv s"
  "node_kv (s\<lparr>entry_ll_head := p\<rparr>) = node_kv s"
  "node_kv (s\<lparr>entry_ll_tail := p\<rparr>) = node_kv s"
  "node_kv (s\<lparr>entry_table := p\<rparr>) = node_kv s"
  "node_kv (s\<lparr>hash_func := hf\<rparr>) = node_kv s"
  by (simp_all add: fun_eq_iff node_kv_def)








































end
